theory Spec2Isabelle
  imports Main "HOL-Library.Sublist"
begin

section \<open>Static collection of the suite/test tree (typecheck/collect.ts)\<close>

text \<open>
  The development follows \<^verbatim>\<open>collectTests\<close> of
  \<^verbatim>\<open>packages/vitest/src/typecheck/collect.ts\<close>: the rewrite of the transformed code,
  the visitor that classifies call expressions, the name resolver, and the fold that
  builds the task tree from the sorted definitions.
\<close>

subsection \<open>The syntax tree\<close>

text \<open>
  The ESTree nodes the code distinguishes. Every node carries its \<^verbatim>\<open>start\<close> and
  \<^verbatim>\<open>end\<close> offsets first. A \<open>Literal\<close> carries \<^verbatim>\<open>String(node.value)\<close> (the
  conversion is the language's own) and \<^verbatim>\<open>node.raw\<close>; a \<open>TemplateLiteral\<close> carries
  the \<^verbatim>\<open>value.raw\<close> of its quasis and its expressions; a \<open>CallExpression\<close> its
  callee and arguments; a \<open>TaggedTemplateExpression\<close> its tag and quasi; a
  \<open>MemberExpression\<close> and a \<open>MetaProperty\<close> their two children, the second being the
  field \<^verbatim>\<open>property\<close>. \<open>OtherNode\<close> is any other node type, with its children: it has
  no field \<^verbatim>\<open>name\<close>, \<^verbatim>\<open>property\<close>, \<^verbatim>\<open>callee\<close> or \<^verbatim>\<open>tag\<close>. A
  \<open>PrivateIdentifier\<close> is the one other node type with a field \<^verbatim>\<open>name\<close>. The
  offsets and the elements of strings are natural numbers and characters; a string is
  the list of its code units.
\<close>

datatype node =
    Identifier nat nat string
  | PrivateIdentifier nat nat string
  | Literal nat nat string string
  | TemplateLiteral nat nat "string list" "node list"
  | CallExpression nat nat node "node list"
  | TaggedTemplateExpression nat nat node node
  | MemberExpression nat nat node node
  | MetaProperty nat nat node node
  | OtherNode nat nat "node list"

fun node_start :: "node \<Rightarrow> nat" where
  "node_start (Identifier s e n) = s"
| "node_start (PrivateIdentifier s e n) = s"
| "node_start (Literal s e v r) = s"
| "node_start (TemplateLiteral s e qs es) = s"
| "node_start (CallExpression s e c as) = s"
| "node_start (TaggedTemplateExpression s e t q) = s"
| "node_start (MemberExpression s e ob p) = s"
| "node_start (MetaProperty s e m p) = s"
| "node_start (OtherNode s e cs) = s"

fun node_end :: "node \<Rightarrow> nat" where
  "node_end (Identifier s e n) = e"
| "node_end (PrivateIdentifier s e n) = e"
| "node_end (Literal s e v r) = e"
| "node_end (TemplateLiteral s e qs es) = e"
| "node_end (CallExpression s e c as) = e"
| "node_end (TaggedTemplateExpression s e t q) = e"
| "node_end (MemberExpression s e ob p) = e"
| "node_end (MetaProperty s e m p) = e"
| "node_end (OtherNode s e cs) = e"

text \<open>\<^verbatim>\<open>code.slice(start, end)\<close> for offsets that are natural numbers: both ends are
  clamped to the length, and the result is empty when \<open>end \<le> start\<close>.\<close>

definition slice :: "string \<Rightarrow> nat \<Rightarrow> nat \<Rightarrow> string" where
  "slice code s e = take (e - s) (drop s code)"

subsection \<open>The rewrite of the transformed code\<close>

text \<open>
  \<^verbatim>\<open>request.code.replace(/__vite_ssr_identity__\((\w+\.\w+)\)/g, '(<21 spaces>$1)')\<close>.
  \<open>isWordChar\<close> is the class \<^verbatim>\<open>\w\<close>. \<open>matchIdentity\<close> matches the expression at the
  head of a string and returns the group and the text after the match. Both \<^verbatim>\<open>\w+\<close> are
  greedy, and giving a character back never helps: the character after a shorter run
  is a word character, where the expression wants a dot or a closing parenthesis. So
  each run is the longest run of word characters and must not be empty.
\<close>

definition isWordChar :: "char \<Rightarrow> bool" where
  "isWordChar c \<longleftrightarrow>
     c \<in> set ''abcdefghijklmnopqrstuvwxyzABCDEFGHIJKLMNOPQRSTUVWXYZ0123456789_''"

definition matchIdentity :: "string \<Rightarrow> (string \<times> string) option" where
  "matchIdentity str =
     (if prefix ''__vite_ssr_identity__('' str then
        let r = drop 22 str;
            w1 = takeWhile isWordChar r;
            r1 = dropWhile isWordChar r
        in if w1 = [] then None
           else (case r1 of
                   [] \<Rightarrow> None
                 | c # r2 \<Rightarrow>
                     if c \<noteq> CHR ''.'' then None
                     else
                       let w2 = takeWhile isWordChar r2;
                           r3 = dropWhile isWordChar r2
                       in if w2 = [] then None
                          else (case r3 of
                                  [] \<Rightarrow> None
                                | c' # rest \<Rightarrow>
                                    if c' \<noteq> CHR '')'' then None
                                    else Some (w1 @ ''.'' @ w2, rest)))
      else None)"

text \<open>
  The global replacement scans from the left: where the expression matches, the
  replacement is emitted and the scan goes on after the match; elsewhere the character
  is kept.
\<close>

function replaceIdentity :: "string \<Rightarrow> string" where
  "replaceIdentity [] = []"
| "replaceIdentity (c # cs) =
     (case matchIdentity (c # cs) of
        None \<Rightarrow> c # replaceIdentity cs
      | Some (group1, rest) \<Rightarrow> ''(                     '' @ group1 @ '')'' @ replaceIdentity rest)"
  by pat_completeness auto
termination
proof (relation "measure length")
  show "wf (measure length)" by simp
next
  fix c :: char and cs :: string
  show "(cs, c # cs) \<in> measure length" by simp
next
  fix c :: char and cs :: string and m group1 rest
  assume m: "matchIdentity (c # cs) = Some m" and "(group1, rest) = m"
  then obtain r2 where "dropWhile isWordChar (drop 22 (c # cs)) = CHR ''.'' # r2"
    and "dropWhile isWordChar r2 = CHR '')'' # rest"
    unfolding matchIdentity_def Let_def
    by (auto split: if_splits list.splits)
  then have "length rest < length r2" "length r2 < length (drop 22 (c # cs))"
    using length_dropWhile_le[of isWordChar r2]
      length_dropWhile_le[of isWordChar "drop 22 (c # cs)"]
    by simp_all
  then have "length rest < length (c # cs)" by simp
  then show "(rest, c # cs) \<in> measure length" by simp
qed

text \<open>The spans \<open>[from, to)\<close> of the matches that \<open>replaceIdentity\<close> replaces, as offsets
  into the whole string when the scan of the given suffix starts at \<open>off\<close>.\<close>

function identityMatches :: "nat \<Rightarrow> string \<Rightarrow> (nat \<times> nat) list" where
  "identityMatches off [] = []"
| "identityMatches off (c # cs) =
     (case matchIdentity (c # cs) of
        None \<Rightarrow> identityMatches (Suc off) cs
      | Some (group1, rest) \<Rightarrow>
          (off, off + 23 + length group1) # identityMatches (off + 23 + length group1) rest)"
  by pat_completeness auto
termination
proof (relation "measure (\<lambda>(off, str). length str)")
  show "wf (measure (\<lambda>(off, str). length str))" by simp
next
  fix off :: nat and c :: char and cs :: string
  show "((Suc off, cs), (off, c # cs)) \<in> measure (\<lambda>(off, str). length str)" by simp
next
  fix off :: nat and c :: char and cs :: string and m group1 rest
  assume m: "matchIdentity (c # cs) = Some m" and "(group1, rest) = m"
  then obtain r2 where "dropWhile isWordChar (drop 22 (c # cs)) = CHR ''.'' # r2"
    and "dropWhile isWordChar r2 = CHR '')'' # rest"
    unfolding matchIdentity_def Let_def
    by (auto split: if_splits list.splits)
  then have "length rest < length r2" "length r2 < length (drop 22 (c # cs))"
    using length_dropWhile_le[of isWordChar r2]
      length_dropWhile_le[of isWordChar "drop 22 (c # cs)"]
    by simp_all
  then have "length rest < length (c # cs)" by simp
  then show "((off + 23 + length group1, rest), (off, c # cs))
               \<in> measure (\<lambda>(off, str). length str)" by simp
qed

subsection \<open>Name resolver\<close>

text \<open>
  \<^verbatim>\<open>getNodeAsString\<close> and \<^verbatim>\<open>mergeTemplateLiteral\<close>. The loop of the latter runs over
  the quasis; \<^verbatim>\<open>expressionsIndex\<close> starts at 0 and grows by one exactly when it is an
  index of \<^verbatim>\<open>node.expressions\<close>, so at each quasi it designates the head of the
  expressions not yet consumed, or nothing once they are exhausted.
\<close>

fun isLiteral :: "node \<Rightarrow> bool" where
  "isLiteral (Literal s e v r) = True"
| "isLiteral n = False"

fun isTemplateLiteral :: "node \<Rightarrow> bool" where
  "isTemplateLiteral (TemplateLiteral s e qs es) = True"
| "isTemplateLiteral n = False"

fun raw :: "node \<Rightarrow> string" where
  "raw (Literal s e v r) = r"
| "raw n = []"

fun getNodeAsString :: "node \<Rightarrow> string \<Rightarrow> string"
  and mergeTemplateLiteral :: "string list \<Rightarrow> node list \<Rightarrow> string \<Rightarrow> string"
where
  "getNodeAsString (Literal s e v r) code = v"
| "getNodeAsString (Identifier s e n) code = n"
| "getNodeAsString (PrivateIdentifier s e n) code = slice code s e"
| "getNodeAsString (TemplateLiteral s e qs es) code = mergeTemplateLiteral qs es code"
| "getNodeAsString (CallExpression s e c as) code = slice code s e"
| "getNodeAsString (TaggedTemplateExpression s e t q) code = slice code s e"
| "getNodeAsString (MemberExpression s e ob p) code = slice code s e"
| "getNodeAsString (MetaProperty s e m p) code = slice code s e"
| "getNodeAsString (OtherNode s e cs) code = slice code s e"
| "mergeTemplateLiteral [] es code = []"
| "mergeTemplateLiteral (q # qs) [] code = q @ mergeTemplateLiteral qs [] code"
| "mergeTemplateLiteral (q # qs) (expression # es) code =
     (let string = (if isLiteral expression then raw expression
                    else getNodeAsString expression code)
      in q @ (if isTemplateLiteral expression then ''${`'' @ string @ ''`}''
              else ''${'' @ string @ ''}'')
           @ mergeTemplateLiteral qs es code)"

subsection \<open>Call-site classifier\<close>

datatype task_type = Suite | Test

text \<open>
  \<^verbatim>\<open>LocalCallDefinition\<close>. The mode is the string the visitor stores: \<^verbatim>\<open>'run'\<close> or
  the name of the accessed property, which the code does not compare with the four
  modes of the declared type. The field \<^verbatim>\<open>task\<close> is filled by the tree builder, which
  returns the reference beside the definition.
\<close>

record LocalCallDefinition =
  d_start :: nat
  d_end :: nat
  d_name :: string
  d_type :: task_type
  d_mode :: string

text \<open>
  \<^verbatim>\<open>getName\<close>. The field \<^verbatim>\<open>name\<close> exists on identifiers and private identifiers
  only and the field \<^verbatim>\<open>property\<close> on member expressions and meta properties only, so
  \<^verbatim>\<open>callee.object?.name?.startsWith('__vite_ssr_')\<close> is false unless the object has a
  name, and \<^verbatim>\<open>getName(callee.object?.property)\<close> is \<^verbatim>\<open>getName(undefined)\<close>, that
  is \<^verbatim>\<open>null\<close>, unless the object has a property.
\<close>

fun getName :: "node \<Rightarrow> string option" where
  "getName (Identifier s e n) = Some n"
| "getName (CallExpression s e c as) = getName c"
| "getName (TaggedTemplateExpression s e t q) = getName t"
| "getName (MemberExpression s e (Identifier s' e' n) p) =
     (if prefix ''__vite_ssr_'' n then getName p else None)"
| "getName (MemberExpression s e (PrivateIdentifier s' e' n) p) =
     (if prefix ''__vite_ssr_'' n then getName p else None)"
| "getName (MemberExpression s e (MemberExpression s' e' ob' p') p) = getName p'"
| "getName (MemberExpression s e (MetaProperty s' e' m' p') p) = getName p'"
| "getName (MemberExpression s e ob p) = None"
| "getName n = None"

text \<open>\<^verbatim>\<open>callee?.property?.name\<close>.\<close>

fun propertyName :: "node \<Rightarrow> string option" where
  "propertyName (MemberExpression s e ob (Identifier s' e' n)) = Some n"
| "propertyName (MemberExpression s e ob (PrivateIdentifier s' e' n)) = Some n"
| "propertyName (MetaProperty s e m (Identifier s' e' n)) = Some n"
| "propertyName (MetaProperty s e m (PrivateIdentifier s' e' n)) = Some n"
| "propertyName n = None"

fun isCallExpression :: "node \<Rightarrow> bool" where
  "isCallExpression (CallExpression s e c as) = True"
| "isCallExpression n = False"

fun isTaggedTemplateExpression :: "node \<Rightarrow> bool" where
  "isTaggedTemplateExpression (TaggedTemplateExpression s e t q) = True"
| "isTaggedTemplateExpression n = False"

definition declarationKeywords :: "string list" where
  "declarationKeywords = [''it'', ''test'', ''describe'', ''suite'']"

text \<open>
  The \<^verbatim>\<open>CallExpression\<close> visitor: \<open>Some\<close> of the definition it pushes, \<open>None\<close> where
  it returns without pushing. An empty string is falsy, in \<^verbatim>\<open>!name\<close> and in
  \<^verbatim>\<open>!property\<close>.
\<close>

fun visitCallExpression :: "string \<Rightarrow> node \<Rightarrow> LocalCallDefinition option" where
  "visitCallExpression code (CallExpression s e callee args) =
     (case getName callee of
        None \<Rightarrow> None
      | Some name \<Rightarrow>
          if name = [] then None
          else if name \<notin> set declarationKeywords then None
          else
            let property = propertyName callee;
                mode = (case property of
                          None \<Rightarrow> ''run''
                        | Some p \<Rightarrow> if p = [] \<or> p = name then ''run'' else p)
            in if mode = ''each'' \<or> mode = ''skipIf'' \<or> mode = ''runIf'' \<or> mode = ''for''
               then None
               else
                 let start = (if isCallExpression callee then node_end callee
                              else if isTaggedTemplateExpression callee then node_end callee + 1
                              else s)
                 in (case args of
                       [] \<Rightarrow> None
                     | messageNode # rest \<Rightarrow>
                         Some \<lparr> d_start = start, d_end = e,
                                d_name = getNodeAsString messageNode code,
                                d_type = (if name = ''it'' \<or> name = ''test'' then Test else Suite),
                                d_mode = mode \<rparr>))"
| "visitCallExpression code n = None"

text \<open>
  The walk of \<^verbatim>\<open>acorn-walk\<close>'s \<^verbatim>\<open>ancestor\<close>: the children of a node are walked in
  source order and the visitor is called on the node afterwards. Only the
  \<^verbatim>\<open>CallExpression\<close> visitor is installed; the result is the array \<^verbatim>\<open>definitions\<close>
  in the order of the pushes. The walk enters the property of a member expression only
  when it is computed; a property that is not computed is an identifier or a private
  identifier, where there is nothing to visit, so both cases are one equation. A meta
  property is not entered.
\<close>

fun walkAst :: "string \<Rightarrow> node \<Rightarrow> LocalCallDefinition list" where
  "walkAst code (Identifier s e n) = []"
| "walkAst code (PrivateIdentifier s e n) = []"
| "walkAst code (Literal s e v r) = []"
| "walkAst code (TemplateLiteral s e qs es) = concat (map (walkAst code) es)"
| "walkAst code (CallExpression s e c as) =
     walkAst code c @ concat (map (walkAst code) as)
       @ (case visitCallExpression code (CallExpression s e c as) of
            None \<Rightarrow> [] | Some d \<Rightarrow> [d])"
| "walkAst code (TaggedTemplateExpression s e t q) = walkAst code t @ walkAst code q"
| "walkAst code (MemberExpression s e ob p) = walkAst code ob @ walkAst code p"
| "walkAst code (MetaProperty s e m p) = []"
| "walkAst code (OtherNode s e cs) = concat (map (walkAst code) cs)"

subsection \<open>Tree builder\<close>

text \<open>
  \<^verbatim>\<open>ParsedFile\<close>, \<^verbatim>\<open>ParsedSuite\<close> and \<^verbatim>\<open>ParsedTest\<close> objects live in a store, a list
  indexed by reference; the file is at reference 0 and every object made later gets the
  next free reference. \<open>t_suite\<close> is the field \<^verbatim>\<open>suite\<close> (absent on the file),
  \<open>t_tasks\<close> the array \<^verbatim>\<open>tasks\<close> (absent on a test, which nothing pushes to). The
  fields \<^verbatim>\<open>id\<close>, \<^verbatim>\<open>file\<close>, \<^verbatim>\<open>meta\<close> and \<^verbatim>\<open>context\<close> are constants of the code and
  are left out.
\<close>

record task =
  t_type :: task_type
  t_suite :: "nat option"
  t_tasks :: "nat list"
  t_mode :: string
  t_name :: string
  t_start :: nat
  t_end :: nat

record builder =
  heap :: "task list"
  lastSuite :: nat
  tasksOf :: "nat list"

text \<open>
  \<^verbatim>\<open>updateLatestSuite\<close>: the loop follows \<^verbatim>\<open>suite\<close> links for as long as there is
  one and the end offset is below the index. It returns the new value of
  \<^verbatim>\<open>lastSuite\<close>; \<open>None\<close> stands for a loop that does not end.
\<close>

partial_function (option) updateLatestSuite :: "task list \<Rightarrow> nat \<Rightarrow> nat \<Rightarrow> nat option" where
  "updateLatestSuite h cur index =
     (case t_suite (h ! cur) of
        None \<Rightarrow> Some cur
      | Some parent \<Rightarrow>
          if t_end (h ! cur) < index then updateLatestSuite h parent index
          else Some cur)"

declare updateLatestSuite.simps [code]

text \<open>
  The body of the \<^verbatim>\<open>forEach\<close> callback. The new task gets the reference
  \<open>length (heap b)\<close>; \<^verbatim>\<open>latestSuite.tasks.push(task)\<close> updates the object of the
  enclosing suite in the store; \<open>tasksOf\<close> records \<^verbatim>\<open>definition.task\<close> for the
  definitions processed so far, in order.
\<close>

definition addDefinition :: "builder \<Rightarrow> LocalCallDefinition \<Rightarrow> builder option" where
  "addDefinition b definition =
     (case updateLatestSuite (heap b) (lastSuite b) (d_start definition) of
        None \<Rightarrow> None
      | Some latestSuite \<Rightarrow>
          let suite_obj = heap b ! latestSuite;
              mode = (if t_mode suite_obj \<noteq> ''run'' then t_mode suite_obj
                      else d_mode definition);
              ref = length (heap b);
              new_task = \<lparr> t_type = d_type definition, t_suite = Some latestSuite,
                           t_tasks = [], t_mode = mode, t_name = d_name definition,
                           t_start = d_start definition, t_end = d_end definition \<rparr>;
              pushed = (heap b)[latestSuite := suite_obj\<lparr> t_tasks := t_tasks suite_obj @ [ref] \<rparr>]
          in Some \<lparr> heap = pushed @ [new_task],
                    lastSuite = (if d_type definition = Suite then ref else latestSuite),
                    tasksOf = tasksOf b @ [ref] \<rparr>)"

fun forEachDefinition :: "builder \<Rightarrow> LocalCallDefinition list \<Rightarrow> builder option" where
  "forEachDefinition b [] = Some b"
| "forEachDefinition b (d # ds) =
     (case addDefinition b d of None \<Rightarrow> None | Some b' \<Rightarrow> forEachDefinition b' ds)"

text \<open>The file object: \<^verbatim>\<open>name\<close> is the path relative to the root, the offsets are
  those of the whole syntax tree.\<close>

definition fileTask :: "string \<Rightarrow> nat \<Rightarrow> nat \<Rightarrow> task" where
  "fileTask testFilepath s e =
     \<lparr> t_type = Suite, t_suite = None, t_tasks = [], t_mode = ''run'',
       t_name = testFilepath, t_start = s, t_end = e \<rparr>"

definition initialBuilder :: "string \<Rightarrow> nat \<Rightarrow> nat \<Rightarrow> builder" where
  "initialBuilder testFilepath s e =
     \<lparr> heap = [fileTask testFilepath s e], lastSuite = 0, tasksOf = [] \<rparr>"

text \<open>
  The tree before the calls of \<^verbatim>\<open>calculateSuiteHash\<close>, \<^verbatim>\<open>someTasksAreOnly\<close> and
  \<^verbatim>\<open>interpretTaskModes\<close>, which are not part of this file. \<^verbatim>\<open>Array.prototype.sort\<close>
  is stable, as \<open>sort_key\<close> is.
\<close>

definition buildTree :: "string \<Rightarrow> nat \<Rightarrow> nat \<Rightarrow> LocalCallDefinition list \<Rightarrow> builder option" where
  "buildTree testFilepath s e definitions =
     forEachDefinition (initialBuilder testFilepath s e) (sort_key d_start definitions)"

definition collectTests :: "string \<Rightarrow> string \<Rightarrow> node \<Rightarrow> builder option" where
  "collectTests testFilepath code ast =
     buildTree testFilepath (node_start ast) (node_end ast) (walkAst code ast)"

text \<open>
  The chain of \<^verbatim>\<open>suite\<close> links from a task up to the file, the task itself first. The
  first argument of \<open>ancestors\<close> bounds the number of links followed; a link leads to
  a smaller reference, so \<open>cur\<close> links are enough from \<open>cur\<close>.
\<close>

fun ancestors :: "task list \<Rightarrow> nat \<Rightarrow> nat \<Rightarrow> nat list" where
  "ancestors h 0 cur = [cur]"
| "ancestors h (Suc n) cur =
     cur # (case t_suite (h ! cur) of None \<Rightarrow> [] | Some parent \<Rightarrow> ancestors h n parent)"

definition ancestorChain :: "task list \<Rightarrow> nat \<Rightarrow> nat list" where
  "ancestorChain h cur = ancestors h cur cur"

text \<open>
  The nearest task on the chain from \<open>cur\<close> whose end offset is not below the
  index; the last task of the chain, the file, when there is none.
\<close>

definition nearestOpen :: "task list \<Rightarrow> nat \<Rightarrow> nat \<Rightarrow> nat" where
  "nearestOpen h cur index =
     (case find (\<lambda>i. \<not> t_end (h ! i) < index) (ancestorChain h cur) of
        Some l \<Rightarrow> l
      | None \<Rightarrow> last (ancestorChain h cur))"

text \<open>
  The shape of a store the builder makes: the file at reference 0 has no \<^verbatim>\<open>suite\<close>;
  every other task has one, at a smaller reference, and it is a suite. The cursor
  \<open>lastSuite\<close> is a suite of the store.
\<close>

definition linked :: "task list \<Rightarrow> bool" where
  "linked h \<longleftrightarrow> h \<noteq> [] \<and> t_suite (h ! 0) = None \<and>
     (\<forall>i<length h. 0 < i \<longrightarrow>
        (\<exists>p<i. t_suite (h ! i) = Some p \<and> t_type (h ! p) = Suite))"

definition wf_builder :: "builder \<Rightarrow> bool" where
  "wf_builder b \<longleftrightarrow> linked (heap b) \<and> lastSuite b < length (heap b) \<and>
     t_type (heap b ! lastSuite b) = Suite"

text \<open>The task object the callback makes for a definition under the suite \<open>l\<close>.\<close>

definition newTask :: "task list \<Rightarrow> nat \<Rightarrow> LocalCallDefinition \<Rightarrow> task" where
  "newTask h l d =
     \<lparr> t_type = d_type d, t_suite = Some l, t_tasks = [],
       t_mode = (if t_mode (h ! l) \<noteq> ''run'' then t_mode (h ! l) else d_mode d),
       t_name = d_name d, t_start = d_start d, t_end = d_end d \<rparr>"

subsection \<open>Properly nested declarations\<close>

text \<open>
  A list of definitions in start order is properly nested when, of any two, the earlier
  one either ends before the later one starts, or is a suite whose range strictly
  contains the range of the later one. So no declaration lies inside a test, and no two
  ranges touch or cross.
\<close>

definition properlyNested :: "LocalCallDefinition list \<Rightarrow> bool" where
  "properlyNested ds \<longleftrightarrow>
     (\<forall>j<length ds. \<forall>i<j.
        d_end (ds ! i) < d_start (ds ! j) \<or>
        (d_type (ds ! i) = Suite \<and> d_start (ds ! i) < d_start (ds ! j) \<and>
         d_end (ds ! j) < d_end (ds ! i)))"

text \<open>
  A source in which a test is declared inside the callback of another test, and its
  syntax tree: the program, the expression statement, the outer call with its two
  arguments (a template literal and an arrow function), and in the body of the
  function the statement of the inner call.
\<close>

definition nested_source :: string where
  "nested_source = ''test(`a`, () => { test(`b`) })''"

definition nested_ast :: node where
  "nested_ast =
     OtherNode 0 30 [OtherNode 0 30 [
       CallExpression 0 30 (Identifier 0 4 ''test'')
         [TemplateLiteral 5 8 [''a''] [],
          OtherNode 10 29 [OtherNode 16 29 [OtherNode 18 27 [
            CallExpression 18 27 (Identifier 18 22 ''test'') [TemplateLiteral 23 26 [''b''] []]]]]]]]"

subsection \<open>Vocabulary of the claims about names and call sites\<close>

text \<open>The text of the source under a node.\<close>

definition sourceText :: "string \<Rightarrow> node \<Rightarrow> string" where
  "sourceText code n = slice code (node_start n) (node_end n)"

text \<open>
  What the parser guarantees for the two node types whose text the name resolver takes
  from the node and not from the code: \<^verbatim>\<open>raw\<close> of a literal is the text of its span,
  and so is the name of an identifier (one written without escapes).
\<close>

fun agreesWithSource :: "string \<Rightarrow> node \<Rightarrow> bool" where
  "agreesWithSource code (Literal s e v r) = (r = slice code s e)"
| "agreesWithSource code (Identifier s e n) = (n = slice code s e)"
| "agreesWithSource code n = True"

text \<open>
  What the loop of \<^verbatim>\<open>mergeTemplateLiteral\<close> appends for one interpolated expression:
  a nested template literal gives its merged contents between backticks, a literal its
  \<^verbatim>\<open>raw\<close>, an identifier its name, any other expression the text of its span.
\<close>

fun isIdentifier :: "node \<Rightarrow> bool" where
  "isIdentifier (Identifier s e n) = True"
| "isIdentifier n = False"

fun interpolation :: "string \<Rightarrow> node \<Rightarrow> string" where
  "interpolation code (TemplateLiteral s e qs es) = ''${`'' @ mergeTemplateLiteral qs es code @ ''`}''"
| "interpolation code (Literal s e v r) = ''${'' @ r @ ''}''"
| "interpolation code (Identifier s e n) = ''${'' @ n @ ''}''"
| "interpolation code n = ''${'' @ sourceText code n @ ''}''"

text \<open>The type a definition gets from the base name, and the modifiers that wrap a
  declaration.\<close>

definition kindOf :: "string \<Rightarrow> task_type" where
  "kindOf name = (if name = ''it'' \<or> name = ''test'' then Test else Suite)"

definition guardModifiers :: "string list" where
  "guardModifiers = [''each'', ''skipIf'', ''runIf'', ''for'']"

subsection \<open>Example sources and their syntax trees\<close>

text \<open>
  Three calls of a test through the namespace reference of an import: after
  \<^verbatim>\<open>each\<close> applied to a table, after \<^verbatim>\<open>each\<close> as the tag of a template, and plain.
\<close>

definition each_source :: string where
  "each_source =
     ''__vite_ssr_import_0__.test.each([1, 2])(`a`, fn);__vite_ssr_import_0__.test.each`x`(`a`, fn);__vite_ssr_import_0__.test(`a`, fn)''"

definition chained_call :: node where
  "chained_call =
     CallExpression 0 48
       (CallExpression 0 39
          (MemberExpression 0 31
             (MemberExpression 0 26
                (Identifier 0 21 ''__vite_ssr_import_0__'')
                (Identifier 22 26 ''test''))
             (Identifier 27 31 ''each''))
          [OtherNode 32 38 []])
       [TemplateLiteral 40 43 [''a''] [], Identifier 45 47 ''fn'']"

definition tagged_call :: node where
  "tagged_call =
     CallExpression 49 92
       (TaggedTemplateExpression 49 83
          (MemberExpression 49 80
             (MemberExpression 49 75
                (Identifier 49 70 ''__vite_ssr_import_0__'')
                (Identifier 71 75 ''test''))
             (Identifier 76 80 ''each''))
          (TemplateLiteral 80 83 [''x''] []))
       [TemplateLiteral 84 87 [''a''] [], Identifier 89 91 ''fn'']"

definition namespace_call :: node where
  "namespace_call =
     CallExpression 93 128
       (MemberExpression 93 119
          (Identifier 93 114 ''__vite_ssr_import_0__'')
          (Identifier 115 119 ''test''))
       [TemplateLiteral 120 123 [''a''] [], Identifier 125 127 ''fn'']"

text \<open>A suite declared \<^verbatim>\<open>only\<close> through the namespace reference.\<close>

definition only_source :: string where
  "only_source = ''__vite_ssr_import_0__.describe.only(`s`, fn)''"

definition namespace_only_call :: node where
  "namespace_only_call =
     CallExpression 0 44
       (MemberExpression 0 35
          (MemberExpression 0 30
             (Identifier 0 21 ''__vite_ssr_import_0__'')
             (Identifier 22 30 ''describe''))
          (Identifier 31 35 ''only''))
       [TemplateLiteral 36 39 [''s''] [], Identifier 41 43 ''fn'']"

text \<open>The guard \<^verbatim>\<open>skipIf\<close> applied to its condition; the declaration proper would be the
  call of the result.\<close>

definition skipIf_source :: string where
  "skipIf_source = ''__vite_ssr_import_0__.test.skipIf(isCI)''"

definition skipIf_callee :: node where
  "skipIf_callee =
     MemberExpression 0 33
       (MemberExpression 0 26
          (Identifier 0 21 ''__vite_ssr_import_0__'')
          (Identifier 22 26 ''test''))
       (Identifier 27 33 ''skipIf'')"

text \<open>A test named by a template literal with two interpolations: a sum and a nested
  template literal that interpolates an identifier.\<close>

definition template_source :: string where
  "template_source = ''it(`a${1+1}b${`c${d}`}e`, fn)''"

definition sum_expression :: node where
  "sum_expression = OtherNode 7 10 [Literal 7 8 ''1'' ''1'', Literal 9 10 ''1'' ''1'']"

definition inner_template :: node where
  "inner_template = TemplateLiteral 14 21 [''c'', ''''] [Identifier 18 19 ''d'']"

text \<open>
  A test named by a template literal that interpolates an identifier written with a
  unicode escape: the text of the span is \<^verbatim>\<open>\u0062\<close>, the name of the identifier
  is \<^verbatim>\<open>b\<close>. The backslash is the character \<open>0x5C\<close>.
\<close>

definition escaped_source :: string where
  "escaped_source = ''it(`a${'' @ [CHR 0x5C] @ ''u0062}c`, fn)''"

definition escaped_call :: node where
  "escaped_call =
     CallExpression 0 21 (Identifier 0 2 ''it'')
       [TemplateLiteral 3 16 [''a'', ''c''] [Identifier 7 13 ''b''], Identifier 18 20 ''fn'']"

section \<open>Properties\<close>

subsection \<open>The cursor walk\<close>

lemma ancestors_nonempty: "ancestors h n cur \<noteq> []"
  by (cases n) simp_all

lemma ancestors_hd: "hd (ancestors h n cur) = cur"
  by (cases n) simp_all

lemma ascend_fuel:
  "linked h \<Longrightarrow> cur \<le> n \<Longrightarrow> cur < length h \<Longrightarrow>
   updateLatestSuite h cur index =
     Some (case find (\<lambda>i. \<not> t_end (h ! i) < index) (ancestors h n cur) of
             Some l \<Rightarrow> l | None \<Rightarrow> last (ancestors h n cur))
   \<and> last (ancestors h n cur) = 0 \<and> set (ancestors h n cur) \<subseteq> {..cur}"
proof (induction n arbitrary: cur)
  case 0
  then have "cur = 0" by simp
  with 0 show ?case
    by (simp add: updateLatestSuite.simps linked_def)
next
  case (Suc n)
  show ?case
  proof (cases "cur = 0")
    case True
    with Suc.prems show ?thesis
      by (simp add: updateLatestSuite.simps linked_def)
  next
    case False
    with Suc.prems obtain p where p: "p < cur" "t_suite (h ! cur) = Some p"
      by (auto simp: linked_def)
    then have "p \<le> n" "p < length h" using Suc.prems by simp_all
    from Suc.IH[OF Suc.prems(1) this] 
    have IH: "updateLatestSuite h p index =
     Some (case find (\<lambda>i. \<not> t_end (h ! i) < index) (ancestors h n p) of
             Some l \<Rightarrow> l | None \<Rightarrow> last (ancestors h n p))"
      "last (ancestors h n p) = 0" "set (ancestors h n p) \<subseteq> {..p}" by simp_all
    have upd: "updateLatestSuite h cur index =
       (if t_end (h ! cur) < index then updateLatestSuite h p index else Some cur)"
      by (subst updateLatestSuite.simps) (simp add: p)
    show ?thesis using p IH upd
      by (auto simp: ancestors_nonempty split: option.splits)
  qed
qed

lemma updateLatestSuite_nearest:
  "linked h \<Longrightarrow> cur < length h \<Longrightarrow>
   updateLatestSuite h cur index = Some (nearestOpen h cur index)"
  using ascend_fuel[of h cur cur index]
  by (simp add: nearestOpen_def ancestorChain_def split: option.splits)

lemma ancestorChain_root: "linked h \<Longrightarrow> cur < length h \<Longrightarrow> last (ancestorChain h cur) = 0"
  using ascend_fuel[of h cur cur] by (simp add: ancestorChain_def)

lemma ancestorChain_le: "linked h \<Longrightarrow> cur < length h \<Longrightarrow> i \<in> set (ancestorChain h cur) \<Longrightarrow> i \<le> cur"
  using ascend_fuel[of h cur cur] by (auto simp add: ancestorChain_def)

lemma nearestOpen_le: "linked h \<Longrightarrow> cur < length h \<Longrightarrow> nearestOpen h cur index \<le> cur"
  unfolding nearestOpen_def
  using ancestorChain_le[of h cur] ancestorChain_root[of h cur]
  by (auto split: option.splits simp: find_Some_iff in_set_conv_nth)

lemma nearestOpen_unfold:
  assumes "linked h" "cur < length h"
  shows "nearestOpen h cur index =
     (case t_suite (h ! cur) of
        None \<Rightarrow> cur
      | Some parent \<Rightarrow> if t_end (h ! cur) < index then nearestOpen h parent index else cur)"
proof (cases "cur = 0")
  case True
  with assms have "t_suite (h ! cur) = None" by (simp add: linked_def)
  moreover from True have "nearestOpen h cur index = 0"
    by (simp add: nearestOpen_def ancestorChain_def)
  ultimately show ?thesis using True by simp
next
  case False
  with assms obtain p where p: "p < cur" "t_suite (h ! cur) = Some p"
    by (auto simp: linked_def)
  then have pl: "p < length h" using assms by simp
  have "Some (nearestOpen h cur index) = updateLatestSuite h cur index"
    using assms by (simp add: updateLatestSuite_nearest)
  also have "\<dots> = (if t_end (h ! cur) < index then updateLatestSuite h p index else Some cur)"
    by (subst updateLatestSuite.simps) (simp add: p)
  also have "\<dots> = Some (if t_end (h ! cur) < index then nearestOpen h p index else cur)"
    using assms pl by (simp add: updateLatestSuite_nearest)
  finally show ?thesis using p by simp
qed

lemma nearestOpen_stop:
  "linked h \<Longrightarrow> cur < length h \<Longrightarrow>
   nearestOpen h cur index = 0 \<or> \<not> t_end (h ! nearestOpen h cur index) < index"
proof (induction cur rule: less_induct)
  case (less cur)
  show ?case
  proof (cases "t_suite (h ! cur)")
    case None
    with less.prems have "cur = 0" by (auto simp: linked_def)
    with None less.prems show ?thesis by (simp add: nearestOpen_unfold)
  next
    case (Some p)
    with less.prems have "p < cur" by (cases "cur = 0") (auto simp: linked_def)
    with less.IH[of p] less.prems Some show ?thesis
      by (simp add: nearestOpen_unfold)
  qed
qed

lemma nearestOpen_Suite:
  "linked h \<Longrightarrow> cur < length h \<Longrightarrow> t_type (h ! cur) = Suite \<Longrightarrow>
   t_type (h ! nearestOpen h cur index) = Suite"
proof (induction cur rule: less_induct)
  case (less cur)
  show ?case
  proof (cases "t_suite (h ! cur)")
    case None
    with less.prems show ?thesis by (simp add: nearestOpen_unfold)
  next
    case (Some p)
    with less.prems have "p < cur \<and> t_type (h ! p) = Suite"
      by (cases "cur = 0") (auto simp: linked_def)
    with less.IH[of p] less.prems Some show ?thesis
      by (simp add: nearestOpen_unfold)
  qed
qed

lemma addDefinition_eq:
  fixes b :: builder and d :: LocalCallDefinition
  assumes "wf_builder b"
  defines "l \<equiv> nearestOpen (heap b) (lastSuite b) (d_start d)"
  shows "addDefinition b d =
     Some \<lparr> heap = (heap b)[l := (heap b ! l)\<lparr> t_tasks := t_tasks (heap b ! l) @ [length (heap b)] \<rparr>]
                     @ [newTask (heap b) l d],
            lastSuite = (if d_type d = Suite then length (heap b) else l),
            tasksOf = tasksOf b @ [length (heap b)] \<rparr>"
  using assms
  by (simp add: addDefinition_def updateLatestSuite_nearest wf_builder_def Let_def newTask_def)

lemma addDefinition_heap:
  assumes "wf_builder b" "addDefinition b d = Some b'"
  shows "heap b' = (heap b)[nearestOpen (heap b) (lastSuite b) (d_start d) :=
            (heap b ! nearestOpen (heap b) (lastSuite b) (d_start d))
              \<lparr> t_tasks := t_tasks (heap b ! nearestOpen (heap b) (lastSuite b) (d_start d))
                             @ [length (heap b)] \<rparr>]
          @ [newTask (heap b) (nearestOpen (heap b) (lastSuite b) (d_start d)) d]"
    and "lastSuite b' = (if d_type d = Suite then length (heap b)
                         else nearestOpen (heap b) (lastSuite b) (d_start d))"
    and "tasksOf b' = tasksOf b @ [length (heap b)]"
  using assms by (auto simp: addDefinition_eq)

lemma nearestOpen_less:
  "wf_builder b \<Longrightarrow> nearestOpen (heap b) (lastSuite b) index < length (heap b)"
  using nearestOpen_le[of "heap b" "lastSuite b" index]
  by (simp add: wf_builder_def)

lemma nearestOpen_is_Suite:
  "wf_builder b \<Longrightarrow> t_type (heap b ! nearestOpen (heap b) (lastSuite b) index) = Suite"
  by (simp add: wf_builder_def nearestOpen_Suite)

lemma addDefinition_old:
  assumes "wf_builder b" "addDefinition b d = Some b'" "i < length (heap b)"
  shows "t_suite (heap b' ! i) = t_suite (heap b ! i)"
    and "t_type (heap b' ! i) = t_type (heap b ! i)"
    and "t_mode (heap b' ! i) = t_mode (heap b ! i)"
    and "t_name (heap b' ! i) = t_name (heap b ! i)"
    and "t_start (heap b' ! i) = t_start (heap b ! i)"
    and "t_end (heap b' ! i) = t_end (heap b ! i)"
    and "t_tasks (heap b' ! i) =
           (if i = nearestOpen (heap b) (lastSuite b) (d_start d)
            then t_tasks (heap b ! i) @ [length (heap b)] else t_tasks (heap b ! i))"
  using assms(3) nearestOpen_less[OF assms(1), of "d_start d"]
  by (simp_all add: addDefinition_heap(1)[OF assms(1,2)] nth_append nth_list_update)

lemma addDefinition_new:
  assumes "wf_builder b" "addDefinition b d = Some b'"
  shows "length (heap b') = Suc (length (heap b))"
    and "heap b' ! length (heap b) =
           newTask (heap b) (nearestOpen (heap b) (lastSuite b) (d_start d)) d"
  by (simp_all add: addDefinition_heap(1)[OF assms] nth_append)

lemma addDefinition_wf:
  assumes wf: "wf_builder b" and step: "addDefinition b d = Some b'"
  shows "wf_builder b'"
proof -
  let ?l = "nearestOpen (heap b) (lastSuite b) (d_start d)"
  let ?n = "length (heap b)"
  note old = addDefinition_old[OF wf step]
  note new = addDefinition_new[OF wf step]
  from wf have lk: "linked (heap b)" by (simp add: wf_builder_def)
  have l: "?l < ?n" by (rule nearestOpen_less[OF wf])
  have ls: "t_type (heap b ! ?l) = Suite" by (rule nearestOpen_is_Suite[OF wf])
  have "linked (heap b')"
    unfolding linked_def
  proof (intro conjI allI impI)
    show "heap b' \<noteq> []" using new(1) by auto
    have "0 < ?n" using l by (cases "heap b") simp_all
    then show "t_suite (heap b' ! 0) = None" using lk by (simp add: old(1) linked_def)
    fix i assume i: "i < length (heap b')" "0 < i"
    show "\<exists>p<i. t_suite (heap b' ! i) = Some p \<and> t_type (heap b' ! p) = Suite"
    proof (cases "i < ?n")
      case True
      with lk i obtain p where p: "p < i" "t_suite (heap b ! i) = Some p" "t_type (heap b ! p) = Suite"
        by (auto simp: linked_def)
      then have "p < ?n" using True by simp
      with p True show ?thesis by (auto simp: old(1,2))
    next
      case False
      with i have "i = ?n" by (simp add: new(1))
      with l ls show ?thesis
        by (auto simp: new(2) old(2) newTask_def)
    qed
  qed
  moreover have "lastSuite b' < length (heap b')"
    using l by (simp add: addDefinition_heap(2)[OF wf step] new(1))
  moreover have "t_type (heap b' ! lastSuite b') = Suite"
    using l ls by (simp add: addDefinition_heap(2)[OF wf step] new(2) old(2) newTask_def)
  ultimately show ?thesis by (simp add: wf_builder_def)
qed

lemma addDefinition_total: "wf_builder b \<Longrightarrow> \<exists>b'. addDefinition b d = Some b'"
  by (simp add: addDefinition_eq)

lemma initialBuilder_wf: "wf_builder (initialBuilder f s e)"
  by (simp add: wf_builder_def initialBuilder_def linked_def fileTask_def)

lemma forEachDefinition_snoc:
  "forEachDefinition b (ds @ [d]) =
     (case forEachDefinition b ds of None \<Rightarrow> None | Some b' \<Rightarrow> addDefinition b' d)"
  by (induction ds arbitrary: b) (auto split: option.splits)

lemma forEachDefinition_wf:
  "wf_builder b \<Longrightarrow> \<exists>b'. forEachDefinition b ds = Some b' \<and> wf_builder b'"
proof (induction ds arbitrary: b)
  case Nil
  then show ?case by simp
next
  case (Cons d ds)
  from addDefinition_total[OF Cons.prems] obtain b1 where b1: "addDefinition b d = Some b1" by blast
  with Cons.prems have "wf_builder b1" by (rule addDefinition_wf)
  from Cons.IH[OF this] b1 show ?case by simp
qed

lemma built_induct [consumes 1, case_names init step]:
  assumes built: "forEachDefinition (initialBuilder f s e) ds = Some b"
    and init: "P [] (initialBuilder f s e)"
    and step: "\<And>ds b d b'. forEachDefinition (initialBuilder f s e) ds = Some b \<Longrightarrow>
                 wf_builder b \<Longrightarrow> P ds b \<Longrightarrow> addDefinition b d = Some b' \<Longrightarrow> P (ds @ [d]) b'"
  shows "P ds b"
  using built
proof (induction ds arbitrary: b rule: rev_induct)
  case Nil
  with init show ?case by simp
next
  case (snoc d ds)
  from forEachDefinition_wf[OF initialBuilder_wf, of f s e ds]
  obtain b0 where b0: "forEachDefinition (initialBuilder f s e) ds = Some b0" "wf_builder b0"
    by blast
  with snoc.prems have "addDefinition b0 d = Some b"
    by (simp add: forEachDefinition_snoc)
  with b0 snoc.IH[OF b0(1)] show ?case by (rule step)
qed

lemma built_wf:
  "forEachDefinition (initialBuilder f s e) ds = Some b \<Longrightarrow> wf_builder b"
  using forEachDefinition_wf[OF initialBuilder_wf, of f s e ds] by auto

lemma built_length:
  "forEachDefinition (initialBuilder f s e) ds = Some b \<Longrightarrow> length (heap b) = Suc (length ds)"
proof (induction rule: built_induct)
  case init
  show ?case by (simp add: initialBuilder_def)
next
  case (step ds b d b')
  then show ?case by (simp add: addDefinition_new(1))
qed

lemma built_tasksOf:
  "forEachDefinition (initialBuilder f s e) ds = Some b \<Longrightarrow> tasksOf b = [1..<Suc (length ds)]"
proof (induction rule: built_induct)
  case init
  show ?case by (simp add: initialBuilder_def)
next
  case (step ds b d b')
  then show ?case by (simp add: addDefinition_heap(3) built_length)
qed

lemma built_root:
  assumes "forEachDefinition (initialBuilder f s e) ds = Some b"
  shows "t_suite (heap b ! 0) = None \<and> t_type (heap b ! 0) = Suite \<and> t_mode (heap b ! 0) = ''run''
       \<and> t_name (heap b ! 0) = f \<and> t_start (heap b ! 0) = s \<and> t_end (heap b ! 0) = e"
  using assms
proof (induction rule: built_induct)
  case init
  show ?case by (simp add: initialBuilder_def fileTask_def)
next
  case (step ds b d b')
  from step(1) have "0 < length (heap b)" by (simp add: built_length)
  with step show ?case by (simp add: addDefinition_old)
qed

lemma built_fields:
  assumes "forEachDefinition (initialBuilder f s e) ds = Some b" "k < length ds"
  shows "t_type (heap b ! Suc k) = d_type (ds ! k) \<and> t_name (heap b ! Suc k) = d_name (ds ! k)
       \<and> t_start (heap b ! Suc k) = d_start (ds ! k) \<and> t_end (heap b ! Suc k) = d_end (ds ! k)"
  using assms
proof (induction arbitrary: k rule: built_induct)
  case init
  then show ?case by simp
next
  case (step ds b d b')
  note len = built_length[OF step(1)]
  show ?case
  proof (cases "k < length ds")
    case True
    then have "Suc k < length (heap b)" by (simp add: len)
    with step True show ?thesis by (simp add: addDefinition_old nth_append)
  next
    case False
    with step.prems have k: "k = length ds" by simp
    then have "Suc k = length (heap b)" by (simp add: len)
    with step k show ?thesis by (simp add: addDefinition_new(2) newTask_def nth_append)
  qed
qed

lemma built_mode:
  assumes "forEachDefinition (initialBuilder f s e) ds = Some b" "k < length ds"
  shows "\<exists>p\<le>k. t_suite (heap b ! Suc k) = Some p \<and>
           t_mode (heap b ! Suc k) =
             (if t_mode (heap b ! p) \<noteq> ''run'' then t_mode (heap b ! p) else d_mode (ds ! k))"
  using assms
proof (induction arbitrary: k rule: built_induct)
  case init
  then show ?case by simp
next
  case (step ds b d b')
  note len = built_length[OF step(1)]
  show ?case
  proof (cases "k < length ds")
    case True
    then have sk: "Suc k < length (heap b)" by (simp add: len)
    from step.IH[OF True] obtain p where p: "p \<le> k" "t_suite (heap b ! Suc k) = Some p"
      "t_mode (heap b ! Suc k) =
             (if t_mode (heap b ! p) \<noteq> ''run'' then t_mode (heap b ! p) else d_mode (ds ! k))"
      by blast
    then have "p < length (heap b)" using sk by simp
    with p sk True step.hyps show ?thesis
      by (intro exI[of _ p]) (simp add: addDefinition_old nth_append)
  next
    case False
    with step.prems have k: "k = length ds" by simp
    then have sk: "Suc k = length (heap b)" by (simp add: len)
    let ?l = "nearestOpen (heap b) (lastSuite b) (d_start d)"
    have l: "?l < length (heap b)" by (rule nearestOpen_less[OF step(2)])
    then have "?l \<le> k" using sk by simp
    with step.hyps sk k l show ?thesis
      by (intro exI[of _ ?l]) (simp add: addDefinition_old addDefinition_new(2) newTask_def)
  qed
qed

subsection \<open>The tree after any list of definitions\<close>

lemma buildTree_built:
  "\<exists>b. buildTree f s e ds = Some b \<and>
       forEachDefinition (initialBuilder f s e) (sort_key d_start ds) = Some b"
  using forEachDefinition_wf[OF initialBuilder_wf, of f s e "sort_key d_start ds"]
  by (auto simp: buildTree_def)

lemma built_children:
  assumes "forEachDefinition (initialBuilder f s e) ds = Some b" "p < length (heap b)"
  shows "t_tasks (heap b ! p) = filter (\<lambda>i. t_suite (heap b ! i) = Some p) [0..<length (heap b)]"
  using assms
proof (induction arbitrary: p rule: built_induct)
  case init
  then show ?case by (simp add: initialBuilder_def fileTask_def)
next
  case (step ds b d b')
  let ?l = "nearestOpen (heap b) (lastSuite b) (d_start d)"
  let ?n = "length (heap b)"
  note wf = step.hyps(2) and st = step.hyps(3)
  note old = addDefinition_old[OF wf st] and new = addDefinition_new[OF wf st]
  have l: "?l < ?n" by (rule nearestOpen_less[OF wf])
  have par: "t_suite (heap b' ! ?n) = Some ?l" by (simp add: new(2) newTask_def)
  have same: "filter (\<lambda>i. t_suite (heap b' ! i) = Some q) [0..<?n]
            = filter (\<lambda>i. t_suite (heap b ! i) = Some q) [0..<?n]" for q
    by (rule filter_cong) (simp_all add: old(1))
  have split: "filter (\<lambda>i. t_suite (heap b' ! i) = Some q) [0..<length (heap b')]
     = filter (\<lambda>i. t_suite (heap b ! i) = Some q) [0..<?n] @ (if q = ?l then [?n] else [])" for q
    using same[of q] par by (auto simp: new(1))
  show ?case
  proof (cases "p < ?n")
    case True
    from step.IH[OF True] True show ?thesis
      by (cases "p = ?l") (simp_all add: old(7) split)
  next
    case False
    with step.prems have p: "p = ?n" by (simp add: new(1))
    from wf have lk: "linked (heap b)" by (simp add: wf_builder_def)
    have "t_suite (heap b ! i) \<noteq> Some ?n" if "i < ?n" for i
    proof (cases "i = 0")
      case True
      with lk show ?thesis by (simp add: linked_def)
    next
      case False
      with lk that obtain q where "q < i" "t_suite (heap b ! i) = Some q"
        by (auto simp: linked_def)
      with that show ?thesis by simp
    qed
    then have "filter (\<lambda>i. t_suite (heap b ! i) = Some ?n) [0..<?n] = []"
      by (simp add: filter_empty_conv)
    with l show ?thesis
      by (simp add: p split new(2) newTask_def)
  qed
qed

lemma built_parent:
  assumes "forEachDefinition (initialBuilder f s e) ds = Some b" "k < length ds"
  shows "\<exists>bk. forEachDefinition (initialBuilder f s e) (take k ds) = Some bk \<and>
               t_suite (heap b ! Suc k) =
                 Some (nearestOpen (heap bk) (lastSuite bk) (d_start (ds ! k)))"
  using assms
proof (induction arbitrary: k rule: built_induct)
  case init
  then show ?case by simp
next
  case (step ds b d b')
  note wf = step.hyps(2) and st = step.hyps(3)
  note len = built_length[OF step.hyps(1)]
  show ?case
  proof (cases "k < length ds")
    case True
    then have "Suc k < length (heap b)" by (simp add: len)
    with step.IH[OF True] True wf st show ?thesis
      by (simp add: addDefinition_old(1) nth_append)
  next
    case False
    with step.prems have k: "k = length ds" by simp
    then have "Suc k = length (heap b)" by (simp add: len)
    with k step.hyps(1) wf st show ?thesis
      by (simp add: addDefinition_new(2) newTask_def)
  qed
qed

lemma ancestors_path:
  "linked h \<Longrightarrow> cur \<le> n \<Longrightarrow> cur < length h \<Longrightarrow> Suc j < length (ancestors h n cur) \<Longrightarrow>
   t_suite (h ! (ancestors h n cur ! j)) = Some (ancestors h n cur ! Suc j)"
proof (induction n arbitrary: cur j)
  case 0
  then show ?case by simp
next
  case (Suc n)
  note prems = Suc.prems and IH = Suc.IH
  show ?case
  proof (cases "t_suite (h ! cur)")
    case None
    with prems show ?thesis by simp
  next
    case (Some p)
    with prems have p: "p < cur" by (cases "cur = 0") (auto simp: linked_def)
    then have pn: "p \<le> n" "p < length h" using prems by simp_all
    have unf: "ancestors h (Suc n) cur = cur # ancestors h n p" using Some by simp
    show ?thesis
    proof (cases j)
      case 0
      have "ancestors h n p ! 0 = p"
        using ancestors_hd[of h n p] ancestors_nonempty[of h n p] by (simp add: hd_conv_nth)
      with 0 Some show ?thesis by (simp add: unf)
    next
      case (Suc j')
      with prems(4) have "Suc j' < length (ancestors h n p)" unfolding unf by simp
      from IH[OF prems(1) pn this] Suc show ?thesis by (simp add: Some)
    qed
  qed
qed

lemma ancestorChain_path:
  assumes "linked h" "cur < length h"
  shows "hd (ancestorChain h cur) = cur" and "last (ancestorChain h cur) = 0"
    and "\<forall>j. Suc j < length (ancestorChain h cur) \<longrightarrow>
           t_suite (h ! (ancestorChain h cur ! j)) = Some (ancestorChain h cur ! Suc j)"
  using assms ancestors_path[of h cur cur]
  by (simp_all add: ancestorChain_def ancestors_hd ancestorChain_root[unfolded ancestorChain_def])

subsection \<open>Modes along the chain of enclosing suites\<close>

lemma built_forced:
  assumes "forEachDefinition (initialBuilder f s e) ds = Some b"
    and "i < length (heap b)" "t_suite (heap b ! i) = Some p" "t_mode (heap b ! p) \<noteq> ''run''"
  shows "t_mode (heap b ! i) = t_mode (heap b ! p)"
proof -
  from assms(1) have lk: "linked (heap b)" using built_wf by (auto simp: wf_builder_def)
  from lk assms(3) have "i \<noteq> 0" by (cases "i = 0") (simp_all add: linked_def)
  then obtain k where k: "i = Suc k" by (cases i) auto
  with assms(2) built_length[OF assms(1)] have "k < length ds" by simp
  from built_mode[OF assms(1) this] k assms(3,4) show ?thesis by auto
qed

lemma ancestors_forced:
  assumes lk: "linked h"
    and par: "\<And>i p. i < length h \<Longrightarrow> t_suite (h ! i) = Some p \<Longrightarrow> t_mode (h ! p) \<noteq> ''run'' \<Longrightarrow>
                t_mode (h ! i) = t_mode (h ! p)"
  shows "i \<le> n \<Longrightarrow> i < length h \<Longrightarrow> a \<in> set (ancestors h n i) \<Longrightarrow> t_mode (h ! a) \<noteq> ''run'' \<Longrightarrow>
         t_mode (h ! i) = t_mode (h ! a)"
proof (induction n arbitrary: i)
  case 0
  then show ?case by simp
next
  case (Suc n)
  show ?case
  proof (cases "a = i")
    case True
    then show ?thesis by simp
  next
    case False
    with Suc.prems obtain p where p: "t_suite (h ! i) = Some p" "a \<in> set (ancestors h n p)"
      by (cases "t_suite (h ! i)") auto
    with lk Suc.prems have "p < i" by (cases "i = 0") (auto simp: linked_def)
    then have "p \<le> n" "p < length h" using Suc.prems by simp_all
    from Suc.IH[OF this p(2) Suc.prems(4)] have pa: "t_mode (h ! p) = t_mode (h ! a)" .
    with Suc.prems(4) have "t_mode (h ! p) \<noteq> ''run''" by simp
    from par[OF Suc.prems(2) p(1) this] pa show ?thesis by simp
  qed
qed

subsection \<open>Ranges of properly nested declarations\<close>

lemma ancestors_fuel_indep:
  "linked h \<Longrightarrow> cur < length h \<Longrightarrow> cur \<le> n \<Longrightarrow> ancestors h n cur = ancestors h cur cur"
proof (induction cur arbitrary: n rule: less_induct)
  case (less cur)
  show ?case
  proof (cases cur)
    case 0
    with less.prems show ?thesis by (cases n) (simp_all add: linked_def)
  next
    case (Suc c)
    with less.prems obtain p where p: "p < cur" "t_suite (h ! cur) = Some p"
      by (auto simp: linked_def)
    from less.prems Suc obtain n' where n': "n = Suc n'" by (cases n) auto
    from p less.prems n' Suc have b: "p < length h" "p \<le> n'" "p \<le> c" by simp_all
    have "ancestors h n' p = ancestors h p p" using less.IH[OF p(1) less.prems(1) b(1,2)] .
    moreover have "ancestors h c p = ancestors h p p" using less.IH[OF p(1) less.prems(1) b(1,3)] .
    ultimately show ?thesis using p n' Suc by simp
  qed
qed

lemma ancestorChain_unfold:
  assumes "linked h" "cur < length h"
  shows "ancestorChain h cur =
     cur # (case t_suite (h ! cur) of None \<Rightarrow> [] | Some p \<Rightarrow> ancestorChain h p)"
proof (cases cur)
  case 0
  with assms show ?thesis by (simp add: ancestorChain_def linked_def)
next
  case (Suc c)
  with assms obtain p where p: "p < cur" "t_suite (h ! cur) = Some p"
    by (auto simp: linked_def)
  with assms Suc have "ancestors h c p = ancestors h p p"
    by (intro ancestors_fuel_indep) simp_all
  with p Suc show ?thesis by (simp add: ancestorChain_def)
qed

lemma nearestOpen_chain:
  "linked h \<Longrightarrow> cur < length h \<Longrightarrow> x \<in> set (ancestorChain h cur) \<Longrightarrow>
   x \<in> set (ancestorChain h (nearestOpen h cur index)) \<or> t_end (h ! x) < index"
proof (induction cur rule: less_induct)
  case (less cur)
  show ?case
  proof (cases "t_suite (h ! cur)")
    case None
    with less.prems show ?thesis by (simp add: nearestOpen_unfold)
  next
    case (Some p)
    with less.prems have p: "p < cur" by (cases "cur = 0") (auto simp: linked_def)
    then have pl: "p < length h" using less.prems by simp
    show ?thesis
    proof (cases "t_end (h ! cur) < index")
      case False
      with Some less.prems show ?thesis by (simp add: nearestOpen_unfold)
    next
      case True
      then have n: "nearestOpen h cur index = nearestOpen h p index"
        using Some less.prems by (simp add: nearestOpen_unfold)
      from less.prems(3) have "x = cur \<or> x \<in> set (ancestorChain h p)"
        using ancestorChain_unfold[OF less.prems(1,2)] Some by simp
      then show ?thesis
      proof
        assume "x = cur" with True show ?thesis by simp
      next
        assume "x \<in> set (ancestorChain h p)"
        from less.IH[OF p less.prems(1) pl this] n show ?thesis by simp
      qed
    qed
  qed
qed

lemma ancestors_frame:
  assumes "linked h" "\<And>i. i < length h \<Longrightarrow> t_suite (h' ! i) = t_suite (h ! i)"
  shows "cur < length h \<Longrightarrow> ancestors h' n cur = ancestors h n cur"
proof (induction n arbitrary: cur)
  case 0
  show ?case by simp
next
  case (Suc n)
  show ?case
  proof (cases "t_suite (h ! cur)")
    case None
    with Suc.prems assms(2) show ?thesis by simp
  next
    case (Some p)
    with Suc.prems assms(1) have "p < cur" by (cases "cur = 0") (auto simp: linked_def)
    then have "p < length h" using Suc.prems by simp
    from Suc.IH[OF this] Some Suc.prems assms(2) show ?thesis by simp
  qed
qed

lemma addDefinition_chain_old:
  assumes "wf_builder b" "addDefinition b d = Some b'" "x < length (heap b)"
  shows "ancestorChain (heap b') x = ancestorChain (heap b) x"
  unfolding ancestorChain_def
  using assms
  by (intro ancestors_frame) (simp_all add: wf_builder_def addDefinition_old(1))

lemma addDefinition_chain_new:
  assumes wf: "wf_builder b" and st: "addDefinition b d = Some b'"
  shows "ancestorChain (heap b') (length (heap b)) =
     length (heap b) # ancestorChain (heap b) (nearestOpen (heap b) (lastSuite b) (d_start d))"
proof -
  let ?l = "nearestOpen (heap b) (lastSuite b) (d_start d)"
  from addDefinition_wf[OF wf st] have lk': "linked (heap b')" by (simp add: wf_builder_def)
  have n: "length (heap b) < length (heap b')" by (simp add: addDefinition_new(1)[OF wf st])
  have par: "t_suite (heap b' ! length (heap b)) = Some ?l"
    by (simp add: addDefinition_new(2)[OF wf st] newTask_def)
  have l: "?l < length (heap b)" by (rule nearestOpen_less[OF wf])
  from ancestorChain_unfold[OF lk' n] par
  have "ancestorChain (heap b') (length (heap b)) = length (heap b) # ancestorChain (heap b') ?l"
    by simp
  with addDefinition_chain_old[OF wf st l] show ?thesis by simp
qed

lemma properlyNested_butlast: "properlyNested (ds @ [d]) \<Longrightarrow> properlyNested ds"
  unfolding properlyNested_def
proof (intro allI impI)
  fix j i assume a: "\<forall>j<length (ds @ [d]). \<forall>i<j.
        d_end ((ds @ [d]) ! i) < d_start ((ds @ [d]) ! j) \<or>
        (d_type ((ds @ [d]) ! i) = Suite \<and> d_start ((ds @ [d]) ! i) < d_start ((ds @ [d]) ! j) \<and>
         d_end ((ds @ [d]) ! j) < d_end ((ds @ [d]) ! i))" and j: "j < length ds" and i: "i < j"
  from a j i have "d_end ((ds @ [d]) ! i) < d_start ((ds @ [d]) ! j) \<or>
        (d_type ((ds @ [d]) ! i) = Suite \<and> d_start ((ds @ [d]) ! i) < d_start ((ds @ [d]) ! j) \<and>
         d_end ((ds @ [d]) ! j) < d_end ((ds @ [d]) ! i))" by simp
  with j i show "d_end (ds ! i) < d_start (ds ! j) \<or>
        (d_type (ds ! i) = Suite \<and> d_start (ds ! i) < d_start (ds ! j) \<and>
         d_end (ds ! j) < d_end (ds ! i))" by (simp add: nth_append)
qed

lemma properlyNested_last:
  assumes "properlyNested (ds @ [d])" "i < length ds"
  shows "d_end (ds ! i) < d_start d \<or>
        (d_type (ds ! i) = Suite \<and> d_start (ds ! i) < d_start d \<and> d_end d < d_end (ds ! i))"
  using assms(1)[unfolded properlyNested_def, rule_format, of "length ds" i] assms(2)
  by (simp add: nth_append)

lemma nested_invariant:
  assumes "forEachDefinition (initialBuilder f s e) ds = Some b"
  shows "sorted (map d_start ds) \<longrightarrow> properlyNested ds \<longrightarrow>
     (\<forall>i<length (heap b). \<forall>p. t_suite (heap b ! i) = Some p \<longrightarrow> 0 < p \<longrightarrow>
        t_start (heap b ! p) < t_start (heap b ! i) \<and> t_end (heap b ! i) < t_end (heap b ! p)) \<and>
     (\<forall>i<length (heap b). \<forall>j<i. 0 < j \<longrightarrow> t_suite (heap b ! i) = t_suite (heap b ! j) \<longrightarrow>
        t_end (heap b ! j) < t_start (heap b ! i)) \<and>
     (\<forall>x<length (heap b). 0 < x \<longrightarrow> t_type (heap b ! x) = Suite \<longrightarrow>
        x \<in> set (ancestorChain (heap b) (lastSuite b)) \<or> t_end (heap b ! x) < d_start (last ds))"
  using assms
proof (induction rule: built_induct)
  case init
  show ?case by (simp add: initialBuilder_def fileTask_def)
next
  case (step ds b d b')
  note built = step.hyps(1) and wf = step.hyps(2) and st = step.hyps(3)
  let ?h = "heap b" and ?h' = "heap b'"
  let ?n = "length (heap b)"
  let ?l = "nearestOpen (heap b) (lastSuite b) (d_start d)"
  note old = addDefinition_old[OF wf st] and new = addDefinition_new[OF wf st]
  from wf have lk: "linked ?h" and cur: "lastSuite b < ?n" by (simp_all add: wf_builder_def)
  have l: "?l < ?n" by (rule nearestOpen_less[OF wf])
  have len: "?n = Suc (length ds)" by (rule built_length[OF built])
  have newf: "t_suite (?h' ! ?n) = Some ?l" "t_start (?h' ! ?n) = d_start d"
    "t_end (?h' ! ?n) = d_end d" "t_type (?h' ! ?n) = d_type d"
    by (simp_all add: new(2) newTask_def)
  show ?case
  proof (intro impI)
    assume srt: "sorted (map d_start (ds @ [d]))" and nst: "properlyNested (ds @ [d])"
    from srt have srt0: "sorted (map d_start ds)" by (simp add: sorted_append)
    from nst have nst0: "properlyNested ds" by (rule properlyNested_butlast)
    from step.IH srt0 nst0 have
      I1: "\<And>i p. i < ?n \<Longrightarrow> t_suite (?h ! i) = Some p \<Longrightarrow> 0 < p \<Longrightarrow>
             t_start (?h ! p) < t_start (?h ! i) \<and> t_end (?h ! i) < t_end (?h ! p)"
      and I2: "\<And>i j. i < ?n \<Longrightarrow> j < i \<Longrightarrow> 0 < j \<Longrightarrow> t_suite (?h ! i) = t_suite (?h ! j) \<Longrightarrow>
             t_end (?h ! j) < t_start (?h ! i)"
      and I3: "\<And>x. x < ?n \<Longrightarrow> 0 < x \<Longrightarrow> t_type (?h ! x) = Suite \<Longrightarrow>
             x \<in> set (ancestorChain ?h (lastSuite b)) \<or> t_end (?h ! x) < d_start (last ds)"
      by blast+
    have N: "t_end (?h ! x) < d_start d \<or>
             (t_type (?h ! x) = Suite \<and> t_start (?h ! x) < d_start d \<and> d_end d < t_end (?h ! x))"
      if x: "0 < x" "x < ?n" for x
    proof -
      from x obtain k where k: "x = Suc k" "k < length ds" using len by (cases x) auto
      from properlyNested_last[OF nst k(2)] built_fields[OF built k(2)] k(1)
      show ?thesis by simp
    qed
    have I3': "x \<in> set (ancestorChain ?h ?l) \<or> t_end (?h ! x) < d_start d"
      if x: "x < ?n" "0 < x" "t_type (?h ! x) = Suite" for x
    proof -
      from x len have ne: "ds \<noteq> []" by auto
      then have "last ds \<in> set ds" by simp
      with srt have le: "d_start (last ds) \<le> d_start d"
        by (simp add: sorted_append)
      from I3[OF x] show ?thesis
      proof
        assume "x \<in> set (ancestorChain ?h (lastSuite b))"
        from nearestOpen_chain[OF lk cur this] show ?thesis .
      next
        assume "t_end (?h ! x) < d_start (last ds)"
        with le show ?thesis by simp
      qed
    qed
    have parentlt: "p < i" if "i < ?n" "t_suite (?h ! i) = Some p" for i p
      using lk that by (cases "i = 0") (auto simp: linked_def)
    have J1: "\<forall>i<length ?h'. \<forall>p. t_suite (?h' ! i) = Some p \<longrightarrow> 0 < p \<longrightarrow>
        t_start (?h' ! p) < t_start (?h' ! i) \<and> t_end (?h' ! i) < t_end (?h' ! p)"
    proof (intro allI impI)
      fix i p assume i: "i < length ?h'" and p: "t_suite (?h' ! i) = Some p" and p0: "0 < p"
      show "t_start (?h' ! p) < t_start (?h' ! i) \<and> t_end (?h' ! i) < t_end (?h' ! p)"
      proof (cases "i < ?n")
        case True
        with p have p': "t_suite (?h ! i) = Some p" by (simp add: old(1))
        from parentlt[OF True p'] True have "p < ?n" by simp
        with I1[OF True p' p0] True show ?thesis by (simp add: old(5,6))
      next
        case False
        with i have i: "i = ?n" by (simp add: new(1))
        with p newf(1) have pl: "p = ?l" by simp
        from nearestOpen_stop[OF lk cur, of "d_start d"] p0 pl
        have "\<not> t_end (?h ! ?l) < d_start d" by simp
        with N[of ?l] p0 pl l
        have "t_start (?h ! ?l) < d_start d \<and> d_end d < t_end (?h ! ?l)" by simp
        with i pl l show ?thesis by (simp add: newf old(5,6))
      qed
    qed
    have J2: "\<forall>i<length ?h'. \<forall>j<i. 0 < j \<longrightarrow> t_suite (?h' ! i) = t_suite (?h' ! j) \<longrightarrow>
        t_end (?h' ! j) < t_start (?h' ! i)"
    proof (intro allI impI)
      fix i j assume i: "i < length ?h'" and j: "j < i" and j0: "0 < j"
        and eq: "t_suite (?h' ! i) = t_suite (?h' ! j)"
      show "t_end (?h' ! j) < t_start (?h' ! i)"
      proof (cases "i < ?n")
        case True
        with j have jn: "j < ?n" by simp
        from eq True jn have "t_suite (?h ! i) = t_suite (?h ! j)" by (simp add: old(1))
        from I2[OF True j j0 this] True jn show ?thesis by (simp add: old(5,6))
      next
        case False
        with i have i: "i = ?n" by (simp add: new(1))
        with j have jn: "j < ?n" by simp
        from eq i jn have pj: "t_suite (?h ! j) = Some ?l" by (simp add: newf old(1))
        have "t_end (?h ! j) < d_start d"
        proof (rule ccontr)
          assume c: "\<not> t_end (?h ! j) < d_start d"
          with N[OF j0 jn] have "t_type (?h ! j) = Suite" by simp
          from I3'[OF jn j0 this] c have "j \<in> set (ancestorChain ?h ?l)" by simp
          from ancestorChain_le[OF lk l this] parentlt[OF jn pj] show False by simp
        qed
        with i jn show ?thesis by (simp add: newf old(6))
      qed
    qed
    have J3: "\<forall>x<length ?h'. 0 < x \<longrightarrow> t_type (?h' ! x) = Suite \<longrightarrow>
        x \<in> set (ancestorChain ?h' (lastSuite b')) \<or> t_end (?h' ! x) < d_start (last (ds @ [d]))"
    proof (intro allI impI)
      fix x assume x: "x < length ?h'" and x0: "0 < x" and xs: "t_type (?h' ! x) = Suite"
      have ls: "lastSuite b' = (if d_type d = Suite then ?n else ?l)"
        by (rule addDefinition_heap(2)[OF wf st])
      have sub: "set (ancestorChain ?h ?l) \<subseteq> set (ancestorChain ?h' (lastSuite b'))"
        using addDefinition_chain_new[OF wf st] addDefinition_chain_old[OF wf st l]
        by (auto simp: ls)
      show "x \<in> set (ancestorChain ?h' (lastSuite b')) \<or> t_end (?h' ! x) < d_start (last (ds @ [d]))"
      proof (cases "x < ?n")
        case True
        with xs have "t_type (?h ! x) = Suite" by (simp add: old(2))
        from I3'[OF True x0 this] sub True show ?thesis by (auto simp: old(6))
      next
        case False
        with x have xn: "x = ?n" by (simp add: new(1))
        with xs have "d_type d = Suite" by (simp add: newf)
        with xn show ?thesis using addDefinition_chain_new[OF wf st] by (simp add: ls)
      qed
    qed
    from J1 J2 J3 show "(\<forall>i<length ?h'. \<forall>p. t_suite (?h' ! i) = Some p \<longrightarrow> 0 < p \<longrightarrow>
        t_start (?h' ! p) < t_start (?h' ! i) \<and> t_end (?h' ! i) < t_end (?h' ! p)) \<and>
      (\<forall>i<length ?h'. \<forall>j<i. 0 < j \<longrightarrow> t_suite (?h' ! i) = t_suite (?h' ! j) \<longrightarrow>
        t_end (?h' ! j) < t_start (?h' ! i)) \<and>
      (\<forall>x<length ?h'. 0 < x \<longrightarrow> t_type (?h' ! x) = Suite \<longrightarrow>
        x \<in> set (ancestorChain ?h' (lastSuite b')) \<or> t_end (?h' ! x) < d_start (last (ds @ [d])))"
      by blast
  qed
qed

subsection \<open>The rewrite keeps offsets\<close>

lemma matchIdentity_shape:
  assumes "matchIdentity str = Some (g, rest)"
  shows "str = ''__vite_ssr_identity__('' @ g @ '')'' @ rest"
proof -
  from assms have p: "prefix ''__vite_ssr_identity__('' str"
    by (simp add: matchIdentity_def split: if_splits)
  then obtain r where r: "str = ''__vite_ssr_identity__('' @ r" by (auto simp: prefix_def)
  then have d: "drop 22 str = r" by simp
  have split: "xs = takeWhile isWordChar xs @ dropWhile isWordChar xs" for xs by simp
  from assms p obtain r2 where r2: "dropWhile isWordChar r = CHR ''.'' # r2"
    and rest: "dropWhile isWordChar r2 = CHR '')'' # rest"
    and g: "g = takeWhile isWordChar r @ ''.'' @ takeWhile isWordChar r2"
    unfolding matchIdentity_def Let_def d
    by (auto split: if_splits list.splits)
  have "r = takeWhile isWordChar r @ CHR ''.'' # takeWhile isWordChar r2 @ CHR '')'' # rest"
    using split[of r] split[of r2] r2 rest by simp
  with r g show ?thesis by simp
qed

lemma replaceIdentity_length: "length (replaceIdentity str) = length str"
proof (induction str rule: replaceIdentity.induct)
  case 1
  show ?case by simp
next
  case (2 c cs)
  show ?case
  proof (cases "matchIdentity (c # cs)")
    case None
    with 2 show ?thesis by simp
  next
    case (Some m)
    obtain g rest where m: "m = (g, rest)" by (cases m)
    from matchIdentity_shape[OF Some[unfolded m]]
    have "length (c # cs) = 22 + length g + 1 + length rest"
      by (simp del: append.simps)
    moreover have "length (replaceIdentity rest) = length rest"
      using 2(2)[OF Some m[symmetric]] .
    ultimately show ?thesis using Some m by simp
  qed
qed

lemma replaceIdentity_Some:
  assumes "matchIdentity (c # cs) = Some (g, rest)"
  shows "replaceIdentity (c # cs) = ''(                     '' @ (g @ '')'') @ replaceIdentity rest"
    and "identityMatches off (c # cs) =
           (off, off + 23 + length g) # identityMatches (off + 23 + length g) rest"
    and "c # cs = ''__vite_ssr_identity__('' @ (g @ '')'') @ rest"
  using assms matchIdentity_shape[OF assms] by simp_all

lemma replaceIdentity_nth:
  "i < length str \<Longrightarrow>
   (\<forall>(a, b)\<in>set (identityMatches off str). \<not> (a \<le> off + i \<and> off + i < a + 22)) \<Longrightarrow>
   replaceIdentity str ! i = str ! i"
proof (induction str arbitrary: off i rule: replaceIdentity.induct)
  case 1
  then show ?case by simp
next
  case (2 c cs)
  show ?case
  proof (cases "matchIdentity (c # cs)")
    case None
    show ?thesis
    proof (cases i)
      case 0
      with None show ?thesis by simp
    next
      case (Suc j)
      with "2.prems" None have "j < length cs"
        and "\<forall>(a, b)\<in>set (identityMatches (Suc off) cs). \<not> (a \<le> Suc off + j \<and> Suc off + j < a + 22)"
        by simp_all
      from "2.IH"(1)[OF None this] None Suc show ?thesis by simp
    qed
  next
    case (Some m)
    obtain g rest where m: "m = (g, rest)" by (cases m)
    note eqs = replaceIdentity_Some[OF Some[unfolded m]]
    let ?R = "''(                     ''" and ?P = "''__vite_ssr_identity__(''"
    let ?mid = "g @ '')''"
    have lens: "length ?R = 22" "length ?P = 22" by simp_all
    from "2.prems"(2) have i22: "22 \<le> i" unfolding eqs(2)[of off] by simp
    show ?thesis
    proof (cases "i - 22 < length ?mid")
      case True
      have "replaceIdentity (c # cs) ! i = ?mid ! (i - 22)"
        unfolding eqs(1) using i22 True lens(1) by (simp only: nth_append) simp
      moreover have "(c # cs) ! i = ?mid ! (i - 22)"
        unfolding eqs(3) using i22 True lens(2) by (simp only: nth_append) simp
      ultimately show ?thesis by simp
    next
      case False
      let ?i' = "i - 22 - length ?mid"
      have len: "length (c # cs) = 22 + length ?mid + length rest"
        unfolding eqs(3) by (simp only: length_append lens)
      with "2.prems"(1) False i22 have i': "?i' < length rest" by simp
      have off: "off + 23 + length g + ?i' = off + i" using False i22 by simp
      from "2.prems"(2) have
        "\<forall>(a, b)\<in>set (identityMatches (off + 23 + length g) rest).
            \<not> (a \<le> off + 23 + length g + ?i' \<and> off + 23 + length g + ?i' < a + 22)"
        unfolding eqs(2)[of off] off by simp
      from "2.IH"(2)[OF Some m[symmetric] i' this]
      have IH: "replaceIdentity rest ! ?i' = rest ! ?i'" .
      have "replaceIdentity (c # cs) ! i = replaceIdentity rest ! ?i'"
        unfolding eqs(1) using i22 False lens(1) by (simp only: nth_append) simp
      moreover have "(c # cs) ! i = rest ! ?i'"
        unfolding eqs(3) using i22 False lens(2) by (simp only: nth_append) simp
      ultimately show ?thesis using IH by simp
    qed
  qed
qed

lemma identityMatches_sound:
  "(a, b) \<in> set (identityMatches off str) \<Longrightarrow>
   off \<le> a \<and> (\<exists>g rest. matchIdentity (drop (a - off) str) = Some (g, rest) \<and> b = a + 23 + length g)"
proof (induction off str rule: identityMatches.induct)
  case (1 off)
  then show ?case by simp
next
  case (2 off c cs)
  show ?case
  proof (cases "matchIdentity (c # cs)")
    case None
    with "2.prems" have "(a, b) \<in> set (identityMatches (Suc off) cs)" by simp
    from "2.IH"(1)[OF None this] obtain g rest where
      "Suc off \<le> a" "matchIdentity (drop (a - Suc off) cs) = Some (g, rest)" "b = a + 23 + length g"
      by blast
    moreover from this(1) have "a - off = Suc (a - Suc off)" by simp
    then have "drop (a - off) (c # cs) = drop (a - Suc off) cs" by simp
    ultimately show ?thesis by auto
  next
    case (Some m)
    obtain g rest where m: "m = (g, rest)" by (cases m)
    note eqs = replaceIdentity_Some[OF Some[unfolded m]]
    from "2.prems" have "(a, b) = (off, off + 23 + length g) \<or>
        (a, b) \<in> set (identityMatches (off + 23 + length g) rest)"
      unfolding eqs(2)[of off] by simp
    then show ?thesis
    proof
      assume "(a, b) = (off, off + 23 + length g)"
      with Some m show ?thesis by simp
    next
      assume "(a, b) \<in> set (identityMatches (off + 23 + length g) rest)"
      from "2.IH"(2)[OF Some m[symmetric] this] obtain g' rest' where
        le: "off + 23 + length g \<le> a"
        and m': "matchIdentity (drop (a - (off + 23 + length g)) rest) = Some (g', rest')"
        and b: "b = a + 23 + length g'"
        by blast
      define pm where "pm = ''__vite_ssr_identity__('' @ (g @ '')'')"
      have len: "length pm = 23 + length g" by (simp add: pm_def)
      have cs: "c # cs = pm @ rest" unfolding pm_def eqs(3) by simp
      have "length pm \<le> a - off" using le len by simp
      then have "drop (a - off) (c # cs) = drop (a - off - length pm) rest"
        unfolding cs by simp
      also have "a - off - length pm = a - (off + 23 + length g)" using len by simp
      finally have "drop (a - off) (c # cs) = drop (a - (off + 23 + length g)) rest" .
      with le m' b show ?thesis by simp
    qed
  qed
qed

subsection \<open>Template literals\<close>

lemma expression_interpolation:
  "(let string = (if isLiteral ex then raw ex else getNodeAsString ex code)
    in if isTemplateLiteral ex then ''${`'' @ string @ ''`}'' else ''${'' @ string @ ''}'')
   = interpolation code ex"
  by (cases ex) (simp_all add: sourceText_def)

lemma mergeTemplateLiteral_interpolations:
  "length qs = length es \<Longrightarrow>
   mergeTemplateLiteral (q # qs) es code
     = q @ concat (map2 (\<lambda>ex q'. interpolation code ex @ q') es qs)"
proof (induction es arbitrary: q qs)
  case Nil
  then show ?case by simp
next
  case (Cons ex es)
  then obtain q' qs' where qs: "qs = q' # qs'" by (cases qs) auto
  with Cons.prems have "length qs' = length es" by simp
  from Cons.IH[OF this, of q'] expression_interpolation[of ex code] qs
  show ?case by (simp add: Let_def)
qed

section \<open>The claims\<close>

subsection \<open>Mode resolution in the tree builder\<close>

text \<open>
  C1. For every list of definitions the builder returns a tree in which the task made
  for the \<open>k\<close>-th definition in start order (reference \<open>Suc k\<close>) has an enclosing
  suite \<open>p\<close>, and its mode is the mode of \<open>p\<close> when that is not \<^verbatim>\<open>'run'\<close> and the
  declared mode of the definition otherwise. In particular a suite declared
  \<^verbatim>\<open>skip\<close> that contains a test declared \<^verbatim>\<open>only\<close> (the start of the test lies in
  the range of the suite) yields the test with mode \<^verbatim>\<open>'skip'\<close>.
\<close>

theorem builder_mode_resolution:
  "(\<exists>b. buildTree f s e ds = Some b \<and> length (heap b) = Suc (length ds) \<and>
      (\<forall>k<length ds. \<exists>p\<le>k. t_suite (heap b ! Suc k) = Some p \<and>
          t_mode (heap b ! Suc k) =
            (if t_mode (heap b ! p) \<noteq> ''run'' then t_mode (heap b ! p)
             else d_mode (sort_key d_start ds ! k))))
   \<and> (s1 \<le> s2 \<and> s2 \<le> e1 \<longrightarrow>
        (\<exists>b. buildTree f s e
                [\<lparr> d_start = s1, d_end = e1, d_name = n1, d_type = Suite, d_mode = ''skip'' \<rparr>,
                 \<lparr> d_start = s2, d_end = e2, d_name = n2, d_type = Test, d_mode = ''only'' \<rparr>]
              = Some b
           \<and> t_name (heap b ! 1) = n1 \<and> t_type (heap b ! 1) = Suite
           \<and> t_name (heap b ! 2) = n2 \<and> t_type (heap b ! 2) = Test
           \<and> t_suite (heap b ! 2) = Some 1 \<and> t_mode (heap b ! 2) = ''skip''))"
proof (intro conjI impI)
  from buildTree_built[of f s e ds] obtain b where b: "buildTree f s e ds = Some b"
    "forEachDefinition (initialBuilder f s e) (sort_key d_start ds) = Some b" by blast
  have "length (heap b) = Suc (length ds)" using built_length[OF b(2)] by simp
  moreover have "\<forall>k<length ds. \<exists>p\<le>k. t_suite (heap b ! Suc k) = Some p \<and>
          t_mode (heap b ! Suc k) =
            (if t_mode (heap b ! p) \<noteq> ''run'' then t_mode (heap b ! p)
             else d_mode (sort_key d_start ds ! k))"
    using built_mode[OF b(2)] by simp
  ultimately show "\<exists>b. buildTree f s e ds = Some b \<and> length (heap b) = Suc (length ds) \<and>
      (\<forall>k<length ds. \<exists>p\<le>k. t_suite (heap b ! Suc k) = Some p \<and>
          t_mode (heap b ! Suc k) =
            (if t_mode (heap b ! p) \<noteq> ''run'' then t_mode (heap b ! p)
             else d_mode (sort_key d_start ds ! k)))"
    using b(1) by blast
next
  assume "s1 \<le> s2 \<and> s2 \<le> e1"
  then show "\<exists>b. buildTree f s e
                [\<lparr> d_start = s1, d_end = e1, d_name = n1, d_type = Suite, d_mode = ''skip'' \<rparr>,
                 \<lparr> d_start = s2, d_end = e2, d_name = n2, d_type = Test, d_mode = ''only'' \<rparr>]
              = Some b
           \<and> t_name (heap b ! 1) = n1 \<and> t_type (heap b ! 1) = Suite
           \<and> t_name (heap b ! 2) = n2 \<and> t_type (heap b ! 2) = Test
           \<and> t_suite (heap b ! 2) = Some 1 \<and> t_mode (heap b ! 2) = ''skip''"
    by (simp add: buildTree_def initialBuilder_def fileTask_def addDefinition_def
        updateLatestSuite.simps Let_def)
qed

theorem builder_mode_resolution_witness:
  "(0::nat) \<le> 16 \<and> (16::nat) \<le> 50 \<and>
   (\<exists>b. buildTree ''a.test-d.ts'' 0 60
          [\<lparr> d_start = 0, d_end = 50, d_name = ''s'', d_type = Suite, d_mode = ''skip'' \<rparr>,
           \<lparr> d_start = 16, d_end = 40, d_name = ''t'', d_type = Test, d_mode = ''only'' \<rparr>] = Some b
        \<and> t_suite (heap b ! 2) = Some 1 \<and> t_mode (heap b ! 2) = ''skip'')"
  using builder_mode_resolution[where f = "''a.test-d.ts''" and s = 0 and e = 60 and ds = "[]"
      and ?s1.0 = 0 and ?e1.0 = 50 and ?n1.0 = "''s''" and ?s2.0 = 16 and ?e2.0 = 40 and ?n2.0 = "''t''"]
  by auto

subsection \<open>A suite declared only\<close>

text \<open>
  C2, as stated, fails: under a suite declared \<^verbatim>\<open>only\<close>, a test declared \<^verbatim>\<open>skip\<close>
  does not keep its declared mode; the builder gives it the mode \<^verbatim>\<open>'only'\<close>.
\<close>

theorem only_suite_forces_descendants_counterexample:
  "buildTree ''a.test-d.ts'' 0 60
     [\<lparr> d_start = 0, d_end = 50, d_name = ''s'', d_type = Suite, d_mode = ''only'' \<rparr>,
      \<lparr> d_start = 16, d_end = 40, d_name = ''t'', d_type = Test, d_mode = ''skip'' \<rparr>]
   = Some \<lparr> heap =
       [\<lparr> t_type = Suite, t_suite = None, t_tasks = [1], t_mode = ''run'',
          t_name = ''a.test-d.ts'', t_start = 0, t_end = 60 \<rparr>,
        \<lparr> t_type = Suite, t_suite = Some 0, t_tasks = [2], t_mode = ''only'',
          t_name = ''s'', t_start = 0, t_end = 50 \<rparr>,
        \<lparr> t_type = Test, t_suite = Some 1, t_tasks = [], t_mode = ''only'',
          t_name = ''t'', t_start = 16, t_end = 40 \<rparr>],
       lastSuite = 1, tasksOf = [1, 2] \<rparr>"
  by (simp add: buildTree_def initialBuilder_def fileTask_def addDefinition_def
      updateLatestSuite.simps Let_def)

text \<open>
  C2, amended. In every tree the builder makes, a task has the mode of each task on
  its chain of enclosing suites whose mode is not \<^verbatim>\<open>'run'\<close>; the enclosing suite is on
  that chain, and a task whose enclosing suite has mode \<^verbatim>\<open>'only'\<close> has mode
  \<^verbatim>\<open>'only'\<close>, whatever it declared. Every suite mode other than \<^verbatim>\<open>'run'\<close> is forced
  onto the descendants.
\<close>

theorem suite_mode_forced:
  "\<exists>b. buildTree f s e ds = Some b \<and>
     (\<forall>i<length (heap b). \<forall>a\<in>set (ancestorChain (heap b) i).
         t_mode (heap b ! a) \<noteq> ''run'' \<longrightarrow> t_mode (heap b ! i) = t_mode (heap b ! a)) \<and>
     (\<forall>i<length (heap b). \<forall>p. t_suite (heap b ! i) = Some p \<longrightarrow>
         p \<in> set (ancestorChain (heap b) i) \<and>
         (t_mode (heap b ! p) = ''only'' \<longrightarrow> t_mode (heap b ! i) = ''only''))"
proof -
  from buildTree_built[of f s e ds] obtain b where b: "buildTree f s e ds = Some b"
    "forEachDefinition (initialBuilder f s e) (sort_key d_start ds) = Some b" by blast
  from b(2) have lk: "linked (heap b)" using built_wf by (auto simp: wf_builder_def)
  have chain: "t_mode (heap b ! i) = t_mode (heap b ! a)"
    if "i < length (heap b)" "a \<in> set (ancestorChain (heap b) i)" "t_mode (heap b ! a) \<noteq> ''run''"
    for i a
    using ancestors_forced[OF lk built_forced[OF b(2)], of i i a] that
    by (simp add: ancestorChain_def)
  have mem: "p \<in> set (ancestorChain (heap b) i)"
    if "i < length (heap b)" "t_suite (heap b ! i) = Some p" for i p
  proof -
    from lk that have "i \<noteq> 0" by (cases "i = 0") (simp_all add: linked_def)
    then obtain n where n: "i = Suc n" by (cases i) auto
    have "p \<in> set (ancestors (heap b) n p)"
      using ancestors_hd[of "heap b" n p] ancestors_nonempty[of "heap b" n p]
      by (metis list.set_sel(1))
    with that n show ?thesis by (simp add: ancestorChain_def)
  qed
  have only: "t_mode (heap b ! i) = ''only''"
    if "i < length (heap b)" "t_suite (heap b ! i) = Some p" "t_mode (heap b ! p) = ''only''"
    for i p
    using chain[OF that(1) mem[OF that(1,2)]] that(3) by simp
  show ?thesis
    using b(1) chain mem only by (intro exI[of _ b]) blast
qed

theorem suite_mode_forced_witness:
  "\<exists>b. buildTree ''a.test-d.ts'' 0 60
         [\<lparr> d_start = 0, d_end = 50, d_name = ''s'', d_type = Suite, d_mode = ''only'' \<rparr>,
          \<lparr> d_start = 16, d_end = 40, d_name = ''t'', d_type = Test, d_mode = ''skip'' \<rparr>] = Some b
       \<and> 2 < length (heap b) \<and> t_suite (heap b ! 2) = Some 1
       \<and> t_mode (heap b ! 1) = ''only'' \<and> t_mode (heap b ! 2) = ''only''"
  using suite_mode_forced[of "''a.test-d.ts''" 0 60
         "[\<lparr> d_start = 0, d_end = 50, d_name = ''s'', d_type = Suite, d_mode = ''only'' \<rparr>,
          \<lparr> d_start = 16, d_end = 40, d_name = ''t'', d_type = Test, d_mode = ''skip'' \<rparr>]"]
  by (simp add: buildTree_def initialBuilder_def fileTask_def addDefinition_def
      updateLatestSuite.simps Let_def)

subsection \<open>Kind and mode of a call site\<close>

text \<open>
  C3, as stated, fails for a modifier on a plain identifier: for
  \<^verbatim>\<open>test.skip(`a`, fn)\<close>, with \<^verbatim>\<open>test\<close> an identifier that is not a module
  namespace reference, \<^verbatim>\<open>getName\<close> finds no base name and no definition is pushed.
\<close>

theorem bare_modifier_counterexample:
  "visitCallExpression ''test.skip(`a`, fn)''
     (CallExpression 0 18
        (MemberExpression 0 9 (Identifier 0 4 ''test'') (Identifier 5 9 ''skip''))
        [TemplateLiteral 10 13 [''a''] [], Identifier 15 17 ''fn''])
   = None"
  by simp

text \<open>
  C3, amended. Whenever the visitor pushes a definition, the base name is one of the four
  keywords, the type is test for \<^verbatim>\<open>it\<close> and \<^verbatim>\<open>test\<close> and suite otherwise, and the mode
  is \<^verbatim>\<open>'run'\<close> if the callee has no property name or the property name is the base name,
  and the property name otherwise. The shapes that are classified: the plain call
  \<^verbatim>\<open>k(name, fn)\<close>; the call through a module namespace reference \<^verbatim>\<open>ns.k(name, fn)\<close>,
  with \<^verbatim>\<open>ns\<close> starting with \<^verbatim>\<open>__vite_ssr_\<close>, both with mode \<^verbatim>\<open>'run'\<close>; the modifier on
  a member \<^verbatim>\<open>ns.k.m(name, fn)\<close> with mode \<^verbatim>\<open>m\<close>; the chained
  \<^verbatim>\<open>ns.k.each(table)(name, fn)\<close> with mode \<^verbatim>\<open>'run'\<close>, starting at the end of its callee.
  A modifier on an identifier that is not such a reference, \<^verbatim>\<open>k.m(...)\<close> or
  \<^verbatim>\<open>k.m(table)(...)\<close>, is not classified.
\<close>

theorem classifier_kind_and_mode:
  "(visitCallExpression code (CallExpression s e callee args) = Some d \<longrightarrow>
      (\<exists>name. getName callee = Some name \<and> name \<in> set declarationKeywords \<and>
         d_type d = kindOf name \<and>
         d_mode d = (case propertyName callee of
                       None \<Rightarrow> ''run''
                     | Some p \<Rightarrow> if p = [] \<or> p = name then ''run'' else p)))
   \<and> (k \<in> set declarationKeywords \<longrightarrow>
        visitCallExpression code (CallExpression s e (Identifier s1 e1 k) (a # as))
          = Some \<lparr> d_start = s, d_end = e, d_name = getNodeAsString a code,
                   d_type = kindOf k, d_mode = ''run'' \<rparr>)
   \<and> (k \<in> set declarationKeywords \<and> prefix ''__vite_ssr_'' ns \<longrightarrow>
        visitCallExpression code
          (CallExpression s e
             (MemberExpression s1 e1 (Identifier s2 e2 ns) (Identifier s3 e3 k)) (a # as))
          = Some \<lparr> d_start = s, d_end = e, d_name = getNodeAsString a code,
                   d_type = kindOf k, d_mode = ''run'' \<rparr>)
   \<and> (k \<in> set declarationKeywords \<and> m \<noteq> [] \<and> m \<noteq> k \<and> m \<notin> set guardModifiers \<longrightarrow>
        visitCallExpression code
          (CallExpression s e
             (MemberExpression s1 e1
                (MemberExpression s2 e2 (Identifier s3 e3 ns) (Identifier s4 e4 k))
                (Identifier s5 e5 m)) (a # as))
          = Some \<lparr> d_start = s, d_end = e, d_name = getNodeAsString a code,
                   d_type = kindOf k, d_mode = m \<rparr>)
   \<and> (k \<in> set declarationKeywords \<longrightarrow>
        visitCallExpression code
          (CallExpression s e
             (CallExpression s1 e1
                (MemberExpression s2 e2
                   (MemberExpression s3 e3 (Identifier s4 e4 ns) (Identifier s5 e5 k))
                   (Identifier s6 e6 ''each'')) table) (a # as))
          = Some \<lparr> d_start = e1, d_end = e, d_name = getNodeAsString a code,
                   d_type = kindOf k, d_mode = ''run'' \<rparr>)
   \<and> (\<not> prefix ''__vite_ssr_'' k \<longrightarrow>
        visitCallExpression code
          (CallExpression s e
             (MemberExpression s1 e1 (Identifier s2 e2 k) (Identifier s3 e3 m)) args) = None
        \<and> visitCallExpression code
          (CallExpression s e
             (CallExpression s1 e1
                (MemberExpression s2 e2 (Identifier s3 e3 k) (Identifier s4 e4 m)) table) args) = None)"
proof -
  have ne: "k \<noteq> []" if "k \<in> set declarationKeywords"
    using that by (auto simp: declarationKeywords_def)
  have g: "m \<noteq> ''each'' \<and> m \<noteq> ''skipIf'' \<and> m \<noteq> ''runIf'' \<and> m \<noteq> ''for''"
    if "m \<notin> set guardModifiers"
    using that by (simp add: guardModifiers_def)
  have general: "\<exists>name. getName callee = Some name \<and> name \<in> set declarationKeywords \<and>
         d_type d = kindOf name \<and>
         d_mode d = (case propertyName callee of
                       None \<Rightarrow> ''run''
                     | Some p \<Rightarrow> if p = [] \<or> p = name then ''run'' else p)"
    if v: "visitCallExpression code (CallExpression s e callee args) = Some d"
  proof (cases "getName callee")
    case None
    with v show ?thesis by simp
  next
    case (Some name)
    with v have kw: "name \<noteq> []" "name \<in> set declarationKeywords"
      by (simp_all split: if_splits)
    from v Some kw obtain a as where args: "args = a # as"
      by (cases args) (simp_all add: Let_def split: if_splits)
    from v Some kw args show ?thesis
      by (auto simp: Let_def kindOf_def split: if_splits)
  qed
  have bare: "visitCallExpression code (CallExpression s e (Identifier s1 e1 k) (a # as))
          = Some \<lparr> d_start = s, d_end = e, d_name = getNodeAsString a code,
                   d_type = kindOf k, d_mode = ''run'' \<rparr>"
    if "k \<in> set declarationKeywords"
    using that ne[OF that] by (simp add: kindOf_def)
  have viaNs: "visitCallExpression code
          (CallExpression s e
             (MemberExpression s1 e1 (Identifier s2 e2 ns) (Identifier s3 e3 k)) (a # as))
          = Some \<lparr> d_start = s, d_end = e, d_name = getNodeAsString a code,
                   d_type = kindOf k, d_mode = ''run'' \<rparr>"
    if "k \<in> set declarationKeywords \<and> prefix ''__vite_ssr_'' ns"
    using that ne by (simp add: kindOf_def)
  have modifier: "visitCallExpression code
          (CallExpression s e
             (MemberExpression s1 e1
                (MemberExpression s2 e2 (Identifier s3 e3 ns) (Identifier s4 e4 k))
                (Identifier s5 e5 m)) (a # as))
          = Some \<lparr> d_start = s, d_end = e, d_name = getNodeAsString a code,
                   d_type = kindOf k, d_mode = m \<rparr>"
    if "k \<in> set declarationKeywords \<and> m \<noteq> [] \<and> m \<noteq> k \<and> m \<notin> set guardModifiers"
    using that ne g by (simp add: kindOf_def)
  have chained: "visitCallExpression code
          (CallExpression s e
             (CallExpression s1 e1
                (MemberExpression s2 e2
                   (MemberExpression s3 e3 (Identifier s4 e4 ns) (Identifier s5 e5 k))
                   (Identifier s6 e6 ''each'')) table) (a # as))
          = Some \<lparr> d_start = e1, d_end = e, d_name = getNodeAsString a code,
                   d_type = kindOf k, d_mode = ''run'' \<rparr>"
    if "k \<in> set declarationKeywords"
    using that ne[OF that] by (simp add: kindOf_def)
  have bareMod: "visitCallExpression code
          (CallExpression s e
             (MemberExpression s1 e1 (Identifier s2 e2 k) (Identifier s3 e3 m)) args) = None
        \<and> visitCallExpression code
          (CallExpression s e
             (CallExpression s1 e1
                (MemberExpression s2 e2 (Identifier s3 e3 k) (Identifier s4 e4 m)) table) args) = None"
    if "\<not> prefix ''__vite_ssr_'' k"
    using that by simp
  from general bare viaNs modifier chained bareMod show ?thesis by blast
qed

theorem classifier_kind_and_mode_witness:
  "''describe'' \<in> set declarationKeywords \<and> ''only'' \<noteq> [] \<and> ''only'' \<noteq> ''describe''
   \<and> ''only'' \<notin> set guardModifiers
   \<and> visitCallExpression only_source namespace_only_call
      = Some \<lparr> d_start = 0, d_end = 44, d_name = ''s'', d_type = Suite, d_mode = ''only'' \<rparr>"
proof -
  have h: "''describe'' \<in> set declarationKeywords \<and> ''only'' \<noteq> [] \<and> ''only'' \<noteq> ''describe''
     \<and> ''only'' \<notin> set guardModifiers"
    by (simp add: declarationKeywords_def guardModifiers_def)
  from h classifier_kind_and_mode[where k = "''describe''" and m = "''only''"
      and ns = "''__vite_ssr_import_0__''" and code = only_source and s = 0 and e = 44
      and ?s1.0 = 0 and ?e1.0 = 35 and ?s2.0 = 0 and ?e2.0 = 30 and ?s3.0 = 0 and ?e3.0 = 21
      and ?s4.0 = 22 and ?e4.0 = 30 and ?s5.0 = 31 and ?e5.0 = 35
      and a = "TemplateLiteral 36 39 [''s''] []" and as = "[Identifier 41 43 ''fn'']"]
  show ?thesis
    by (simp add: namespace_only_call_def kindOf_def)
qed

subsection \<open>Every definition is attached once, under the nearest open suite\<close>

text \<open>
  C4. For every list of definitions the builder ends and returns a tree with one task
  per definition, in start order, carrying the type, name and offsets of its
  definition. The children of a task are exactly the tasks whose \<^verbatim>\<open>suite\<close> link
  points to it, each once and in order of creation, so every task made for a
  definition is among the children of exactly one task. That task is the one the
  cursor walk selects in the tree built from the definitions before it: on the chain
  of \<^verbatim>\<open>suite\<close> links from the cursor to the file (reference 0), the first task
  whose end offset is not below the start of the definition, or the file; and it is a
  suite.
\<close>

theorem every_definition_attached_once:
  "\<exists>b. buildTree f s e ds = Some b \<and>
     length (heap b) = Suc (length ds) \<and> tasksOf b = [1..<Suc (length ds)] \<and>
     (\<forall>k<length ds.
        t_type (heap b ! Suc k) = d_type (sort_key d_start ds ! k) \<and>
        t_name (heap b ! Suc k) = d_name (sort_key d_start ds ! k) \<and>
        t_start (heap b ! Suc k) = d_start (sort_key d_start ds ! k) \<and>
        t_end (heap b ! Suc k) = d_end (sort_key d_start ds ! k)) \<and>
     (\<forall>p<length (heap b).
        t_tasks (heap b ! p) =
          filter (\<lambda>i. t_suite (heap b ! i) = Some p) [0..<length (heap b)]) \<and>
     (\<forall>k<length ds.
        \<exists>bk. forEachDefinition (initialBuilder f s e) (take k (sort_key d_start ds)) = Some bk \<and>
          lastSuite bk < length (heap bk) \<and>
          hd (ancestorChain (heap bk) (lastSuite bk)) = lastSuite bk \<and>
          last (ancestorChain (heap bk) (lastSuite bk)) = 0 \<and>
          (\<forall>j. Suc j < length (ancestorChain (heap bk) (lastSuite bk)) \<longrightarrow>
             t_suite (heap bk ! (ancestorChain (heap bk) (lastSuite bk) ! j)) =
               Some (ancestorChain (heap bk) (lastSuite bk) ! Suc j)) \<and>
          t_suite (heap b ! Suc k) =
            Some (nearestOpen (heap bk) (lastSuite bk) (d_start (sort_key d_start ds ! k))) \<and>
          t_type (heap b ! nearestOpen (heap bk) (lastSuite bk)
                              (d_start (sort_key d_start ds ! k))) = Suite)"
proof -
  let ?sds = "sort_key d_start ds"
  from buildTree_built[of f s e ds] obtain b where b: "buildTree f s e ds = Some b"
    "forEachDefinition (initialBuilder f s e) ?sds = Some b" by blast
  have len: "length (heap b) = Suc (length ds)" using built_length[OF b(2)] by simp
  have tk: "tasksOf b = [1..<Suc (length ds)]" using built_tasksOf[OF b(2)] by simp
  have fields: "\<forall>k<length ds.
        t_type (heap b ! Suc k) = d_type (?sds ! k) \<and>
        t_name (heap b ! Suc k) = d_name (?sds ! k) \<and>
        t_start (heap b ! Suc k) = d_start (?sds ! k) \<and>
        t_end (heap b ! Suc k) = d_end (?sds ! k)"
    using built_fields[OF b(2)] by simp
  have children: "\<forall>p<length (heap b).
        t_tasks (heap b ! p) =
          filter (\<lambda>i. t_suite (heap b ! i) = Some p) [0..<length (heap b)]"
    using built_children[OF b(2)] by simp
  have parent: "\<exists>bk. forEachDefinition (initialBuilder f s e) (take k ?sds) = Some bk \<and>
          lastSuite bk < length (heap bk) \<and>
          hd (ancestorChain (heap bk) (lastSuite bk)) = lastSuite bk \<and>
          last (ancestorChain (heap bk) (lastSuite bk)) = 0 \<and>
          (\<forall>j. Suc j < length (ancestorChain (heap bk) (lastSuite bk)) \<longrightarrow>
             t_suite (heap bk ! (ancestorChain (heap bk) (lastSuite bk) ! j)) =
               Some (ancestorChain (heap bk) (lastSuite bk) ! Suc j)) \<and>
          t_suite (heap b ! Suc k) =
            Some (nearestOpen (heap bk) (lastSuite bk) (d_start (?sds ! k))) \<and>
          t_type (heap b ! nearestOpen (heap bk) (lastSuite bk) (d_start (?sds ! k))) = Suite"
    if k: "k < length ds" for k
  proof -
    from k have k': "k < length ?sds" by simp
    from built_parent[OF b(2) k'] obtain bk where
      bk: "forEachDefinition (initialBuilder f s e) (take k ?sds) = Some bk"
      and par: "t_suite (heap b ! Suc k) =
                  Some (nearestOpen (heap bk) (lastSuite bk) (d_start (?sds ! k)))"
      by blast
    from built_wf[OF bk] have wf: "linked (heap bk)" "lastSuite bk < length (heap bk)"
      by (simp_all add: wf_builder_def)
    note path = ancestorChain_path[OF wf]
    from built_wf[OF b(2)] have lk: "linked (heap b)" by (simp add: wf_builder_def)
    have "Suc k < length (heap b)" using k len by simp
    with lk par have "t_type (heap b ! nearestOpen (heap bk) (lastSuite bk) (d_start (?sds ! k))) = Suite"
      by (auto simp: linked_def)
    with bk par wf(2) path show ?thesis by blast
  qed
  from b(1) len tk fields children parent show ?thesis by blast
qed

theorem every_definition_attached_once_witness:
  "\<exists>b. buildTree ''a.test-d.ts'' 0 80
      [\<lparr> d_start = 60, d_end = 70, d_name = ''u'', d_type = Test, d_mode = ''run'' \<rparr>,
       \<lparr> d_start = 0, d_end = 50, d_name = ''s'', d_type = Suite, d_mode = ''run'' \<rparr>,
       \<lparr> d_start = 16, d_end = 40, d_name = ''t'', d_type = Test, d_mode = ''run'' \<rparr>] = Some b
     \<and> length (heap b) = 4 \<and> tasksOf b = [1, 2, 3]
     \<and> map t_name (heap b) = [''a.test-d.ts'', ''s'', ''t'', ''u'']
     \<and> map t_tasks (heap b) = [[1, 3], [2], [], []]
     \<and> map t_suite (heap b) = [None, Some 0, Some 1, Some 0]"
  using every_definition_attached_once[of "''a.test-d.ts''" 0 80
      "[\<lparr> d_start = 60, d_end = 70, d_name = ''u'', d_type = Test, d_mode = ''run'' \<rparr>,
       \<lparr> d_start = 0, d_end = 50, d_name = ''s'', d_type = Suite, d_mode = ''run'' \<rparr>,
       \<lparr> d_start = 16, d_end = 40, d_name = ''t'', d_type = Test, d_mode = ''run'' \<rparr>]"]
  by (simp add: buildTree_def initialBuilder_def fileTask_def
      addDefinition_def updateLatestSuite.simps Let_def)

subsection \<open>Source ranges\<close>

text \<open>
  C5, as stated, fails. For the source \<^verbatim>\<open>test(`a`, () => { test(`b`) })\<close> both tests
  are children of the file; the range of the first is the range of the file itself, so
  it is not strictly contained in it, and it overlaps the range of its sibling.
\<close>

theorem range_invariant_counterexample:
  "collectTests ''a.test-d.ts'' nested_source nested_ast =
     Some \<lparr> heap =
       [\<lparr> t_type = Suite, t_suite = None, t_tasks = [1, 2], t_mode = ''run'',
          t_name = ''a.test-d.ts'', t_start = 0, t_end = 30 \<rparr>,
        \<lparr> t_type = Test, t_suite = Some 0, t_tasks = [], t_mode = ''run'',
          t_name = ''a'', t_start = 0, t_end = 30 \<rparr>,
        \<lparr> t_type = Test, t_suite = Some 0, t_tasks = [], t_mode = ''run'',
          t_name = ''b'', t_start = 18, t_end = 27 \<rparr>],
       lastSuite = 0, tasksOf = [1, 2] \<rparr>"
  by (simp add: collectTests_def nested_ast_def buildTree_def initialBuilder_def fileTask_def
      addDefinition_def updateLatestSuite.simps Let_def declarationKeywords_def)

text \<open>
  C5, amended. When the definitions, in start order, are properly nested, every task
  whose enclosing suite is not the file lies strictly inside the range of that suite,
  and of two tasks with the same enclosing suite the earlier ends before the later
  starts. The file has the offsets of the syntax tree, and contains its tasks, not
  necessarily strictly, when every definition lies within these offsets.
\<close>

theorem nested_ranges:
  assumes "properlyNested (sort_key d_start ds)"
  shows "\<exists>b. buildTree f s e ds = Some b \<and>
     (\<forall>i<length (heap b). \<forall>p. t_suite (heap b ! i) = Some p \<longrightarrow> 0 < p \<longrightarrow>
        t_start (heap b ! p) < t_start (heap b ! i) \<and> t_end (heap b ! i) < t_end (heap b ! p)) \<and>
     (\<forall>i<length (heap b). \<forall>j<i. 0 < j \<longrightarrow> t_suite (heap b ! i) = t_suite (heap b ! j) \<longrightarrow>
        t_end (heap b ! j) < t_start (heap b ! i)) \<and>
     t_start (heap b ! 0) = s \<and> t_end (heap b ! 0) = e \<and>
     ((\<forall>d\<in>set ds. s \<le> d_start d \<and> d_end d \<le> e) \<longrightarrow>
        (\<forall>i<length (heap b). s \<le> t_start (heap b ! i) \<and> t_end (heap b ! i) \<le> e))"
proof -
  let ?sds = "sort_key d_start ds"
  from buildTree_built[of f s e ds] obtain b where b: "buildTree f s e ds = Some b"
    "forEachDefinition (initialBuilder f s e) ?sds = Some b" by blast
  have srt: "sorted (map d_start ?sds)" by (rule sorted_sort_key)
  note inv = nested_invariant[OF b(2), rule_format, OF srt assms]
  note root = built_root[OF b(2)]
  have inside: "s \<le> t_start (heap b ! i) \<and> t_end (heap b ! i) \<le> e"
    if all: "\<forall>d\<in>set ds. s \<le> d_start d \<and> d_end d \<le> e" and i: "i < length (heap b)" for i
  proof (cases i)
    case 0
    with root show ?thesis by simp
  next
    case (Suc k)
    with i built_length[OF b(2)] have k: "k < length ?sds" by simp
    then have "?sds ! k \<in> set ?sds" by (rule nth_mem)
    then have "?sds ! k \<in> set ds" by simp
    with all built_fields[OF b(2) k] Suc show ?thesis by simp
  qed
  from inv have
    "\<forall>i<length (heap b). \<forall>p. t_suite (heap b ! i) = Some p \<longrightarrow> 0 < p \<longrightarrow>
        t_start (heap b ! p) < t_start (heap b ! i) \<and> t_end (heap b ! i) < t_end (heap b ! p)"
    "\<forall>i<length (heap b). \<forall>j<i. 0 < j \<longrightarrow> t_suite (heap b ! i) = t_suite (heap b ! j) \<longrightarrow>
        t_end (heap b ! j) < t_start (heap b ! i)"
    by blast+
  with b(1) root inside show ?thesis by (intro exI[of _ b]) blast
qed

theorem nested_ranges_witness:
  "properlyNested (sort_key d_start
      [\<lparr> d_start = 0, d_end = 50, d_name = ''a'', d_type = Suite, d_mode = ''run'' \<rparr>,
       \<lparr> d_start = 20, d_end = 45, d_name = ''b'', d_type = Suite, d_mode = ''run'' \<rparr>,
       \<lparr> d_start = 30, d_end = 40, d_name = ''c'', d_type = Test, d_mode = ''run'' \<rparr>])
   \<and> (\<exists>b. buildTree ''a.test-d.ts'' 0 60
      [\<lparr> d_start = 0, d_end = 50, d_name = ''a'', d_type = Suite, d_mode = ''run'' \<rparr>,
       \<lparr> d_start = 20, d_end = 45, d_name = ''b'', d_type = Suite, d_mode = ''run'' \<rparr>,
       \<lparr> d_start = 30, d_end = 40, d_name = ''c'', d_type = Test, d_mode = ''run'' \<rparr>] = Some b
      \<and> t_suite (heap b ! 3) = Some 2 \<and> t_suite (heap b ! 2) = Some 1
      \<and> t_start (heap b ! 2) < t_start (heap b ! 3) \<and> t_end (heap b ! 3) < t_end (heap b ! 2))"
proof -
  have n: "properlyNested (sort_key d_start
      [\<lparr> d_start = 0, d_end = 50, d_name = ''a'', d_type = Suite, d_mode = ''run'' \<rparr>,
       \<lparr> d_start = 20, d_end = 45, d_name = ''b'', d_type = Suite, d_mode = ''run'' \<rparr>,
       \<lparr> d_start = 30, d_end = 40, d_name = ''c'', d_type = Test, d_mode = ''run'' \<rparr>])"
    by (simp add: properlyNested_def less_Suc_eq nth_Cons')
  from nested_ranges[OF n, of "''a.test-d.ts''" 0 60] n show ?thesis
    by (simp add: buildTree_def initialBuilder_def fileTask_def
      addDefinition_def updateLatestSuite.simps Let_def)
qed

subsection \<open>Names of template literals\<close>

text \<open>
  C6, as stated, fails for an interpolated identifier: the resolver renders its name, not
  the text of the source under it. For \<^verbatim>\<open>it(`a${\u0062}c`, fn)\<close> the name of the test
  is \<^verbatim>\<open>a${b}c\<close>, while the text of the interpolated expression is \<^verbatim>\<open>\u0062\<close>.
\<close>

theorem escaped_identifier_counterexample:
  "visitCallExpression escaped_source escaped_call
     = Some \<lparr> d_start = 0, d_end = 21, d_name = ''a${b}c'', d_type = Test, d_mode = ''run'' \<rparr>
   \<and> slice escaped_source 7 13 = CHR 0x5C # ''u0062''
   \<and> getNodeAsString (TemplateLiteral 3 16 [''a'', ''c''] [Identifier 7 13 ''b'']) escaped_source
       \<noteq> ''a'' @ ''${'' @ slice escaped_source 7 13 @ ''}'' @ ''c''"
  by (simp add: escaped_call_def escaped_source_def slice_def declarationKeywords_def)

text \<open>
  C6, amended. For a template literal with one quasi more than expressions, the name is
  the first quasi followed, for each expression in turn, by its interpolation and the
  next quasi. The interpolation of a nested template literal is its own merged name
  between \<^verbatim>\<open>${`\<close> and \<^verbatim>\<open>`}\<close>; between \<^verbatim>\<open>${\<close> and \<^verbatim>\<open>}\<close> a literal gives
  its \<^verbatim>\<open>raw\<close>, an identifier its name, and any other expression the text of the
  source under it. Where the tree agrees with the source (\<^verbatim>\<open>raw\<close> of a literal and the
  name of an identifier are the text of their span), every expression that is not a
  template literal gives the text of the source under it. The call
  \<^verbatim>\<open>it(`a${1+1}b`, fn)\<close> gets the name \<^verbatim>\<open>a${1+1}b\<close>.
\<close>

theorem template_literal_rendering:
  "(length quasis = Suc (length expressions) \<longrightarrow>
      getNodeAsString (TemplateLiteral s e quasis expressions) code
        = hd quasis @ concat (map2 (\<lambda>ex q. interpolation code ex @ q) expressions (tl quasis)))
   \<and> interpolation code (TemplateLiteral s' e' qs' es')
        = ''${`'' @ getNodeAsString (TemplateLiteral s' e' qs' es') code @ ''`}''
   \<and> interpolation code (Literal s1 e1 v r) = ''${'' @ r @ ''}''
   \<and> interpolation code (Identifier s2 e2 n) = ''${'' @ n @ ''}''
   \<and> (\<not> isTemplateLiteral ex \<and> \<not> isLiteral ex \<and> \<not> isIdentifier ex \<longrightarrow>
        interpolation code ex = ''${'' @ slice code (node_start ex) (node_end ex) @ ''}'')
   \<and> (agreesWithSource code ex \<and> \<not> isTemplateLiteral ex \<longrightarrow>
        interpolation code ex = ''${'' @ slice code (node_start ex) (node_end ex) @ ''}'')
   \<and> visitCallExpression ''it(`a${1+1}b`, fn)''
        (CallExpression 0 18 (Identifier 0 2 ''it'')
           [TemplateLiteral 3 13 [''a'', ''b'']
              [OtherNode 7 10 [Literal 7 8 ''1'' ''1'', Literal 9 10 ''1'' ''1'']],
            Identifier 15 17 ''fn''])
        = Some \<lparr> d_start = 0, d_end = 18, d_name = ''a${1+1}b'', d_type = Test, d_mode = ''run'' \<rparr>"
proof (intro conjI impI)
  assume a: "length quasis = Suc (length expressions)"
  then obtain q qs where q: "quasis = q # qs" by (cases quasis) auto
  with a mergeTemplateLiteral_interpolations[of qs expressions q code]
  show "getNodeAsString (TemplateLiteral s e quasis expressions) code
        = hd quasis @ concat (map2 (\<lambda>ex q. interpolation code ex @ q) expressions (tl quasis))"
    by simp
next
  show "interpolation code (TemplateLiteral s' e' qs' es')
        = ''${`'' @ getNodeAsString (TemplateLiteral s' e' qs' es') code @ ''`}''" by simp
next
  show "interpolation code (Literal s1 e1 v r) = ''${'' @ r @ ''}''" by simp
next
  show "interpolation code (Identifier s2 e2 n) = ''${'' @ n @ ''}''" by simp
next
  assume "\<not> isTemplateLiteral ex \<and> \<not> isLiteral ex \<and> \<not> isIdentifier ex"
  then show "interpolation code ex = ''${'' @ slice code (node_start ex) (node_end ex) @ ''}''"
    by (cases ex) (simp_all add: sourceText_def)
next
  assume "agreesWithSource code ex \<and> \<not> isTemplateLiteral ex"
  then show "interpolation code ex = ''${'' @ slice code (node_start ex) (node_end ex) @ ''}''"
    by (cases ex) (simp_all add: sourceText_def)
next
  show "visitCallExpression ''it(`a${1+1}b`, fn)''
        (CallExpression 0 18 (Identifier 0 2 ''it'')
           [TemplateLiteral 3 13 [''a'', ''b'']
              [OtherNode 7 10 [Literal 7 8 ''1'' ''1'', Literal 9 10 ''1'' ''1'']],
            Identifier 15 17 ''fn''])
        = Some \<lparr> d_start = 0, d_end = 18, d_name = ''a${1+1}b'', d_type = Test, d_mode = ''run'' \<rparr>"
    by (simp add: declarationKeywords_def slice_def)
qed

theorem template_literal_rendering_witness:
  "length [''a'', ''b'', ''e''] = Suc (length [sum_expression, inner_template])
   \<and> \<not> isTemplateLiteral sum_expression \<and> \<not> isLiteral sum_expression
   \<and> \<not> isIdentifier sum_expression
   \<and> agreesWithSource template_source sum_expression
   \<and> interpolation template_source sum_expression = ''${1+1}''
   \<and> getNodeAsString
        (TemplateLiteral 3 24 [''a'', ''b'', ''e''] [sum_expression, inner_template])
        template_source
       = ''a${1+1}b${`c${d}`}e''"
  using template_literal_rendering[where quasis = "[''a'', ''b'', ''e'']"
      and expressions = "[sum_expression, inner_template]"
      and code = template_source and s = 3 and e = 24 and ex = sum_expression]
  by (simp add: sourceText_def slice_def template_source_def sum_expression_def
      inner_template_def)

subsection \<open>Effective offsets\<close>

text \<open>
  C7. A definition the visitor pushes for a call starts at the end of the callee when
  the callee is a call expression, one past the end of the callee when it is a tagged
  template expression, and at the start of the call otherwise; it ends at the end of
  the call.
\<close>

theorem effective_offsets:
  "visitCallExpression code (CallExpression s e callee args) = Some d \<Longrightarrow>
   d_start d = (if isCallExpression callee then node_end callee
                else if isTaggedTemplateExpression callee then node_end callee + 1
                else s)
   \<and> d_end d = e"
  by (auto split: option.splits if_splits list.splits simp: Let_def)

theorem effective_offsets_witness:
  "visitCallExpression each_source chained_call
     = Some \<lparr> d_start = 39, d_end = 48, d_name = ''a'', d_type = Test, d_mode = ''run'' \<rparr>
   \<and> visitCallExpression each_source tagged_call
     = Some \<lparr> d_start = 84, d_end = 92, d_name = ''a'', d_type = Test, d_mode = ''run'' \<rparr>
   \<and> visitCallExpression each_source namespace_call
     = Some \<lparr> d_start = 93, d_end = 128, d_name = ''a'', d_type = Test, d_mode = ''run'' \<rparr>"
proof -
  have 1: "visitCallExpression each_source chained_call
     = Some \<lparr> d_start = 39, d_end = 48, d_name = ''a'', d_type = Test, d_mode = ''run'' \<rparr>"
    by (simp add: chained_call_def declarationKeywords_def)
  have 2: "visitCallExpression each_source tagged_call
     = Some \<lparr> d_start = 84, d_end = 92, d_name = ''a'', d_type = Test, d_mode = ''run'' \<rparr>"
    by (simp add: tagged_call_def declarationKeywords_def)
  have 3: "visitCallExpression each_source namespace_call
     = Some \<lparr> d_start = 93, d_end = 128, d_name = ''a'', d_type = Test, d_mode = ''run'' \<rparr>"
    by (simp add: namespace_call_def declarationKeywords_def)
  from effective_offsets[OF 1[unfolded chained_call_def]]
    effective_offsets[OF 2[unfolded tagged_call_def]]
    effective_offsets[OF 3[unfolded namespace_call_def]] 1 2 3
  show ?thesis by simp
qed

subsection \<open>Guard and parameterization wrappers\<close>

text \<open>
  C8. A call whose base name is a declaration keyword and whose callee has the property
  name \<^verbatim>\<open>each\<close>, \<^verbatim>\<open>skipIf\<close>, \<^verbatim>\<open>runIf\<close> or \<^verbatim>\<open>for\<close> pushes no definition.
\<close>

theorem guard_wrappers_rejected:
  "getName callee = Some name \<Longrightarrow> name \<in> set declarationKeywords \<Longrightarrow>
   propertyName callee = Some property \<Longrightarrow> property \<in> set guardModifiers \<Longrightarrow>
   visitCallExpression code (CallExpression s e callee args) = None"
  by (auto simp: declarationKeywords_def guardModifiers_def)

theorem guard_wrappers_rejected_witness:
  "getName skipIf_callee = Some ''test'' \<and> ''test'' \<in> set declarationKeywords
   \<and> propertyName skipIf_callee = Some ''skipIf'' \<and> ''skipIf'' \<in> set guardModifiers
   \<and> visitCallExpression skipIf_source
        (CallExpression 0 39 skipIf_callee [Identifier 34 38 ''isCI'']) = None"
proof -
  have a: "getName skipIf_callee = Some ''test''" by (simp add: skipIf_callee_def)
  have b: "''test'' \<in> set declarationKeywords" by (simp add: declarationKeywords_def)
  have c: "propertyName skipIf_callee = Some ''skipIf''" by (simp add: skipIf_callee_def)
  have d: "''skipIf'' \<in> set guardModifiers" by (simp add: guardModifiers_def)
  from guard_wrappers_rejected[OF a b c d] a b c d show ?thesis by blast
qed

subsection \<open>Calls without a name argument\<close>

text \<open>
  C9. A call without arguments pushes no definition, whatever its callee: the walk of
  the call yields what the walk of its callee yields, the visitor returns normally, and
  a file whose only statement is such a call of an identifier yields the tree with the
  file alone.
\<close>

theorem nameless_call_discarded:
  "visitCallExpression code (CallExpression s e callee []) = None
   \<and> walkAst code (CallExpression s e callee []) = walkAst code callee
   \<and> collectTests testFilepath code
        (OtherNode s0 e0 [OtherNode s1 e1 [CallExpression s e (Identifier s2 e2 name) []]])
      = Some (initialBuilder testFilepath s0 e0)"
proof -
  have v: "visitCallExpression code (CallExpression s e callee []) = None" for callee
    by (auto split: option.splits simp: Let_def)
  then show ?thesis
    by (simp add: collectTests_def buildTree_def del: visitCallExpression.simps)
qed

subsection \<open>The rewrite of the identity wrapper\<close>

text \<open>
  C10. The rewritten code has the length of the code. A character at an offset
  outside the spans the rewrite replaces is the character of the code at that offset;
  more precisely only the first 22 offsets of a span (the wrapper name and the opening
  parenthesis) can change, the group and the closing parenthesis stay where they were.
  Every replaced span is a match of the expression, 23 characters longer than its
  group.
\<close>

theorem identity_rewrite_preserves_offsets:
  "length (replaceIdentity code) = length code \<and>
   (\<forall>i<length code.
      (\<forall>(a, b)\<in>set (identityMatches 0 code). \<not> (a \<le> i \<and> i < b)) \<longrightarrow>
      replaceIdentity code ! i = code ! i) \<and>
   (\<forall>i<length code.
      (\<forall>(a, b)\<in>set (identityMatches 0 code). \<not> (a \<le> i \<and> i < a + 22)) \<longrightarrow>
      replaceIdentity code ! i = code ! i) \<and>
   (\<forall>(a, b)\<in>set (identityMatches 0 code).
      \<exists>g rest. matchIdentity (drop a code) = Some (g, rest) \<and> b = a + 23 + length g)"
proof (intro conjI allI impI)
  show "length (replaceIdentity code) = length code" by (rule replaceIdentity_length)
next
  fix i assume i: "i < length code"
    and out: "\<forall>(a, b)\<in>set (identityMatches 0 code). \<not> (a \<le> i \<and> i < a + 22)"
  from replaceIdentity_nth[OF i, of 0] out show "replaceIdentity code ! i = code ! i" by simp
next
  fix i assume i: "i < length code"
    and out: "\<forall>(a, b)\<in>set (identityMatches 0 code). \<not> (a \<le> i \<and> i < b)"
  have "\<forall>(a, b)\<in>set (identityMatches 0 code). \<not> (a \<le> i \<and> i < a + 22)"
  proof (clarify)
    fix a b assume ab: "(a, b) \<in> set (identityMatches 0 code)" and "a \<le> i" "i < a + 22"
    from identityMatches_sound[OF ab] have "a + 22 \<le> b" by auto
    with out ab \<open>a \<le> i\<close> \<open>i < a + 22\<close> show False by auto
  qed
  with replaceIdentity_nth[OF i, of 0] show "replaceIdentity code ! i = code ! i" by simp
next
  show "\<forall>(a, b)\<in>set (identityMatches 0 code).
      \<exists>g rest. matchIdentity (drop a code) = Some (g, rest) \<and> b = a + 23 + length g"
    using identityMatches_sound[of _ _ 0 code] by auto
qed

theorem identity_rewrite_preserves_offsets_witness:
  "identityMatches 0 ''x = __vite_ssr_identity__(__vi_import_0__.test)(`a`)'' = [(4, 47)] \<and>
   replaceIdentity ''x = __vite_ssr_identity__(__vi_import_0__.test)(`a`)''
     = ''x = (                     __vi_import_0__.test)(`a`)'' \<and>
   (47::nat) < length ''x = __vite_ssr_identity__(__vi_import_0__.test)(`a`)'' \<and>
   replaceIdentity ''x = __vite_ssr_identity__(__vi_import_0__.test)(`a`)'' ! 47 = CHR ''(''"
proof -
  have m: "identityMatches 0 ''x = __vite_ssr_identity__(__vi_import_0__.test)(`a`)'' = [(4, 47)]"
    by code_simp
  have r: "replaceIdentity ''x = __vite_ssr_identity__(__vi_import_0__.test)(`a`)''
     = ''x = (                     __vi_import_0__.test)(`a`)''"
    by code_simp
  from identity_rewrite_preserves_offsets[of "''x = __vite_ssr_identity__(__vi_import_0__.test)(`a`)''"]
  have "(\<forall>(a, b)\<in>set (identityMatches 0 ''x = __vite_ssr_identity__(__vi_import_0__.test)(`a`)'').
           \<not> (a \<le> 47 \<and> 47 < b)) \<longrightarrow>
        replaceIdentity ''x = __vite_ssr_identity__(__vi_import_0__.test)(`a`)'' ! 47
          = ''x = __vite_ssr_identity__(__vi_import_0__.test)(`a`)'' ! 47"
    by simp
  with m have "replaceIdentity ''x = __vite_ssr_identity__(__vi_import_0__.test)(`a`)'' ! 47
          = ''x = __vite_ssr_identity__(__vi_import_0__.test)(`a`)'' ! 47" by simp
  then have "replaceIdentity ''x = __vite_ssr_identity__(__vi_import_0__.test)(`a`)'' ! 47 = CHR ''(''"
    by simp
  with m r show ?thesis by simp
qed

end
